theory Spec2Isabelle
  imports Complex_Main "HOL-Library.AList" "HOL-Library.Multiset"
begin

section \<open>Data model of the Group aggregate\<close>

text \<open>
  The model follows the Mongoose schema and the instance methods of the Group model.
  An ObjectId is a natural number; two ids are the same exactly when their
  \<open>toString()\<close> forms are equal. A JavaScript Number that is stored in a document is an
  exact rational (binary rounding of IEEE doubles is not modelled); the one non-finite
  value the methods can produce, \<open>NaN\<close> (from \<open>undefined + x\<close>), is a value of its own
  in \<open>jsnum\<close>. Dates are integers (milliseconds).
\<close>

type_synonym oid = nat

datatype currency = IDR | USD | EUR | JPY | SGD | MYR | KRW

datatype role = Admin | Member

datatype status = Pending | Settled | Disputed

datatype category = Food | Transport | Accommodation | Entertainment | Shopping | Utilities | Other

datatype jsnum = NaN | Num rat

text \<open>
  The methods throw \<open>Error\<close> with a message; each message is one constructor:
  \<^item> \<open>AlreadyMember\<close>: "User is already a member";
  \<^item> \<open>CapacityExceeded\<close>: "Group has reached maximum member limit";
  \<^item> \<open>NotAMember\<close>: "User is not a member of this group";
  \<^item> \<open>OutstandingDebt\<close>: "Cannot remove member with outstanding debts";
  \<^item> \<open>CurrencyNotAllowed\<close>: "Only ... is allowed in this group";
  \<^item> \<open>InvalidSplitParticipant\<close>: "Some users in split are not group members";
  \<^item> \<open>SplitMismatch\<close>: "Split amounts must add up to total amount";
  \<^item> \<open>DebtNotFound\<close>: "Debt not found";
  \<^item> \<open>AlreadySettled\<close>: "Debt is already settled";
  \<^item> \<open>TypeError\<close>: reading \<open>.username\<close> of \<open>undefined\<close> in \<open>calculateDebts\<close>.
\<close>

datatype error =
    AlreadyMember | CapacityExceeded | NotAMember | OutstandingDebt
  | CurrencyNotAllowed | InvalidSplitParticipant | SplitMismatch
  | DebtNotFound | AlreadySettled | TypeError

record membership =
  m_userId :: oid
  m_username :: string
  m_joinedAt :: int
  m_role :: role
  m_isActive :: bool

record comment =
  c_userId :: oid
  c_username :: string
  c_message :: string
  c_timestamp :: int

record split_item =
  s_userId :: oid
  s_username :: string
  s_amount :: rat

record expense =
  e_description :: string
  e_amount :: rat
  e_currency :: currency
  e_paidBy :: oid
  e_paidByUsername :: string
  e_splitBetween :: "split_item list"
  e_category :: category
  e_receiptUrl :: "string option"
  e_notes :: "string option"
  e_date :: int

record party =
  p_userId :: oid
  p_username :: string

record debt =
  d_id :: oid
  d_from :: party
  d_to :: party
  d_amount :: rat
  d_currency :: currency
  d_status :: status
  d_settledAt :: "int option"
  d_settledBy :: "oid option"

text \<open>
  The group document: the collections and the settings the methods read.
  \<open>oidCounter\<close> stands for the ObjectId generator that gives each debt pushed into
  \<open>simplifyDebt\<close> its \<open>_id\<close>: the next fresh id.
\<close>

record group =
  members :: "membership list"
  comments :: "comment list"
  billSplit :: "expense list"
  simplifyDebt :: "debt list"
  defaultCurrency :: currency
  allowMultipleCurrencies :: bool
  autoSimplifyDebts :: bool
  maxMembers :: nat
  oidCounter :: oid

section \<open>Virtuals, the pre-save hook and small helpers\<close>

definition memberCount :: "group \<Rightarrow> nat" where
  "memberCount g = length (filter m_isActive (members g))"

text \<open>
  \<open>save()\<close> is modelled by the pre-save hook: comments sorted by timestamp ascending,
  the ledger sorted by date descending (\<open>Array.prototype.sort\<close> is stable). The
  validators the persistence library runs on save are not part of the model of the methods.
\<close>

definition save :: "group \<Rightarrow> group" where
  "save g = g\<lparr>comments := sort_key c_timestamp (comments g),
              billSplit := sort_key (\<lambda>e. - e_date e) (billSplit g)\<rparr>"


text \<open>
  \<open>members.find(...)\<close> returns a reference to the first matching element; an assignment
  to one of its fields updates that element in place.
\<close>

fun update_first :: "('a \<Rightarrow> bool) \<Rightarrow> ('a \<Rightarrow> 'a) \<Rightarrow> 'a list \<Rightarrow> 'a list" where
  "update_first P f [] = []"
| "update_first P f (x # xs) = (if P x then f x # xs else x # update_first P f xs)"

definition activeMemberIds :: "group \<Rightarrow> oid list" where
  "activeMemberIds g = map m_userId (filter m_isActive (members g))"

section \<open>Membership\<close>

text \<open>
  A method mutates the group it is called on and may throw. Its model returns the error
  thrown, if any, together with the group as the call leaves it. In \<open>addMember\<close>,
  \<open>removeMember\<close>, \<open>addExpense\<close> and \<open>settleDebt\<close> every \<open>throw\<close> comes before
  the first mutation, so a call that fails returns the group as it was. The argument
  \<open>now\<close> is the value of \<open>new Date()\<close>; \<open>role\<close> is optional and defaults to
  \<open>member\<close>.
\<close>

definition addMember :: "group \<Rightarrow> oid \<Rightarrow> string \<Rightarrow> role option \<Rightarrow> int \<Rightarrow> error option \<times> group" where
  "addMember g userId username role now =
     (case find (\<lambda>m. m_userId m = userId) (members g) of
        Some existingMember \<Rightarrow>
          if \<not> m_isActive existingMember
          then (None, save (g\<lparr>members :=
                  update_first (\<lambda>m. m_userId m = userId)
                    (\<lambda>m. m\<lparr>m_joinedAt := now, m_isActive := True\<rparr>) (members g)\<rparr>))
          else (Some AlreadyMember, g)
      | None \<Rightarrow>
          if memberCount g \<ge> maxMembers g then (Some CapacityExceeded, g)
          else (None, save (g\<lparr>members := members g @
                  [\<lparr>m_userId = userId, m_username = username, m_joinedAt = now,
                    m_role = (case role of None \<Rightarrow> Member | Some r \<Rightarrow> r),
                    m_isActive = True\<rparr>]\<rparr>)))"

definition hasDebts :: "group \<Rightarrow> oid \<Rightarrow> bool" where
  "hasDebts g userId =
     (\<exists>d \<in> set (simplifyDebt g).
        (p_userId (d_from d) = userId \<or> p_userId (d_to d) = userId) \<and> d_status d = Pending)"

definition removeMember :: "group \<Rightarrow> oid \<Rightarrow> error option \<times> group" where
  "removeMember g userId =
     (case find (\<lambda>m. m_userId m = userId) (members g) of
        None \<Rightarrow> (Some NotAMember, g)
      | Some member \<Rightarrow>
          if hasDebts g userId then (Some OutstandingDebt, g)
          else (None, save (g\<lparr>members :=
                  update_first (\<lambda>m. m_userId m = userId)
                    (\<lambda>m. m\<lparr>m_isActive := False\<rparr>) (members g)\<rparr>)))"

section \<open>The debt simplifier\<close>

subsection \<open>Balances per currency\<close>

text \<open>
  \<open>debtsByCurrency\<close> is an object of objects; the keys of an object are enumerated in
  insertion order (currency codes and 24-digit hexadecimal ids are not array indices).
  An object is an association list: \<open>AList.update\<close> overwrites an existing key in place
  and appends a new one, as a property assignment does.
\<close>

type_synonym balances = "(oid \<times> jsnum) list"

text \<open>\<open>if (!b[id]) b[id] = 0\<close>: a missing key, \<open>NaN\<close> and \<open>0\<close> are falsy.\<close>

definition init_balance :: "balances \<Rightarrow> oid \<Rightarrow> balances" where
  "init_balance bal memberId =
     (case map_of bal memberId of
        None \<Rightarrow> AList.update memberId (Num 0) bal
      | Some NaN \<Rightarrow> AList.update memberId (Num 0) bal
      | Some (Num r) \<Rightarrow> if r = 0 then AList.update memberId (Num 0) bal else bal)"

text \<open>\<open>b[id] += a\<close>: \<open>undefined + a\<close> and \<open>NaN + a\<close> are \<open>NaN\<close>.\<close>

definition js_add :: "jsnum option \<Rightarrow> rat \<Rightarrow> jsnum" where
  "js_add v a = (case v of Some (Num r) \<Rightarrow> Num (r + a) | _ \<Rightarrow> NaN)"

definition add_to :: "balances \<Rightarrow> oid \<Rightarrow> rat \<Rightarrow> balances" where
  "add_to bal k a = AList.update k (js_add (map_of bal k) a) bal"

text \<open>
  The body of the \<open>forEach\<close> over the ledger, on the balance object of the expense's
  currency: every active member gets a balance, the payer is credited, each participant
  is debited.
\<close>

definition apply_expense :: "oid list \<Rightarrow> balances \<Rightarrow> expense \<Rightarrow> balances" where
  "apply_expense memberIds bal e =
     (let b1 = foldl init_balance bal memberIds;
          b2 = add_to b1 (e_paidBy e) (e_amount e)
      in foldl (\<lambda>b s. add_to b (s_userId s) (- s_amount s)) b2 (e_splitBetween e))"

definition expense_step :: "oid list \<Rightarrow> (currency \<times> balances) list \<Rightarrow> expense \<Rightarrow> (currency \<times> balances) list" where
  "expense_step memberIds debtsByCurrency e =
     (let cur = e_currency e;
          b0 = (case map_of debtsByCurrency cur of None \<Rightarrow> [] | Some b \<Rightarrow> b)
      in AList.update cur (apply_expense memberIds b0 e) debtsByCurrency)"

definition all_balances :: "group \<Rightarrow> (currency \<times> balances) list" where
  "all_balances g = foldl (expense_step (activeMemberIds g)) [] (billSplit g)"

subsection \<open>Creditors, debtors and the two-pointer sweep\<close>

record entry =
  en_userId :: oid
  en_amount :: rat
  en_username :: string

text \<open>
  \<open>memberIds.filter(id => balances[id] > 0.01)\<close> with the amount each kept id carries;
  a comparison with \<open>NaN\<close> is false.
\<close>

definition creditor_balances :: "balances \<Rightarrow> (oid \<times> rat) list" where
  "creditor_balances bal =
     List.map_filter
       (\<lambda>i. case map_of bal i of
               Some (Num r) \<Rightarrow> if r > 1/100 then Some (i, r) else None
             | _ \<Rightarrow> None)
       (map fst bal)"

definition debtor_balances :: "balances \<Rightarrow> (oid \<times> rat) list" where
  "debtor_balances bal =
     List.map_filter
       (\<lambda>i. case map_of bal i of
               Some (Num r) \<Rightarrow> if r < - (1/100) then Some (i, \<bar>r\<bar>) else None
             | _ \<Rightarrow> None)
       (map fst bal)"

text \<open>
  \<open>.map(id => ({userId, amount, username: this.members.find(...).username}))\<close>: when no
  membership record has the id, reading \<open>.username\<close> throws.
\<close>

fun mk_entries :: "membership list \<Rightarrow> (oid \<times> rat) list \<Rightarrow> entry list option" where
  "mk_entries ms [] = Some []"
| "mk_entries ms ((i, a) # rest) =
     (case find (\<lambda>m. m_userId m = i) ms of
        None \<Rightarrow> None
      | Some m \<Rightarrow>
          (case mk_entries ms rest of
             None \<Rightarrow> None
           | Some es \<Rightarrow> Some (\<lparr>en_userId = i, en_amount = a, en_username = m_username m\<rparr> # es)))"

text \<open>\<open>Math.round(x * 100) / 100\<close>; \<open>Math.round\<close> rounds half up.\<close>

definition round2 :: "rat \<Rightarrow> rat" where
  "round2 x = of_int \<lfloor>x * 100 + 1/2\<rfloor> / 100"

definition push_debt :: "group \<Rightarrow> debt \<Rightarrow> group" where
  "push_debt g d = g\<lparr>simplifyDebt := simplifyDebt g @ [d\<lparr>d_id := oidCounter g\<rparr>],
                     oidCounter := Suc (oidCounter g)\<rparr>"

definition new_debt :: "entry \<Rightarrow> entry \<Rightarrow> rat \<Rightarrow> currency \<Rightarrow> debt" where
  "new_debt debtor creditor settleAmount cur =
     \<lparr>d_id = 0,
      d_from = \<lparr>p_userId = en_userId debtor, p_username = en_username debtor\<rparr>,
      d_to = \<lparr>p_userId = en_userId creditor, p_username = en_username creditor\<rparr>,
      d_amount = round2 settleAmount,
      d_currency = cur,
      d_status = Pending,
      d_settledAt = None,
      d_settledBy = None\<rparr>"

text \<open>
  One pass through the body of the \<open>while\<close> loop: the state is the two arrays (their
  entries are mutated in place), the two indices and the group that receives the debts.
\<close>

definition sweep_body ::
  "currency \<Rightarrow> entry list \<Rightarrow> entry list \<Rightarrow> nat \<Rightarrow> nat \<Rightarrow> group \<Rightarrow>
   entry list \<times> entry list \<times> nat \<times> nat \<times> group" where
  "sweep_body cur creditors debtors i j g =
     (let creditor = creditors ! i;
          debtor = debtors ! j;
          settleAmount = min (en_amount creditor) (en_amount debtor);
          g' = (if settleAmount > 1/100
                then push_debt g (new_debt debtor creditor settleAmount cur) else g);
          creditors' = creditors[i := creditor\<lparr>en_amount := en_amount creditor - settleAmount\<rparr>];
          debtors' = debtors[j := debtor\<lparr>en_amount := en_amount debtor - settleAmount\<rparr>];
          i' = (if en_amount (creditors' ! i) < 1/100 then i + 1 else i);
          j' = (if en_amount (debtors' ! j) < 1/100 then j + 1 else j)
      in (creditors', debtors', i', j', g'))"

function sweep :: "currency \<Rightarrow> entry list \<Rightarrow> entry list \<Rightarrow> nat \<Rightarrow> nat \<Rightarrow> group \<Rightarrow> group" where
  "sweep cur creditors debtors i j g =
     (if i < length creditors \<and> j < length debtors
      then (case sweep_body cur creditors debtors i j g of
              (creditors', debtors', i', j', g') \<Rightarrow> sweep cur creditors' debtors' i' j' g')
      else g)"
  by pat_completeness auto
termination
  by (relation "measure (\<lambda>(cur, cs, ds, i, j, g). (length cs - i) + (length ds - j))")
     (auto simp: sweep_body_def Let_def min_def split: if_splits)

declare sweep.simps [simp del]

text \<open>
  The body of the \<open>forEach\<close> over the currencies: the creditor and the debtor array
  (building either throws when a username lookup fails), each sorted by amount,
  descending, by a stable sort, then the loop from the indices 0 and 0. The
  \<open>forEach\<close> itself follows the order of the keys and ends at a throw.
\<close>

definition settle_currency :: "group \<Rightarrow> currency \<times> balances \<Rightarrow> error option \<times> group" where
  "settle_currency g cb =
     (case mk_entries (members g) (creditor_balances (snd cb)) of
        None \<Rightarrow> (Some TypeError, g)
      | Some creditors \<Rightarrow>
          (case mk_entries (members g) (debtor_balances (snd cb)) of
             None \<Rightarrow> (Some TypeError, g)
           | Some debtors \<Rightarrow>
               (None, sweep (fst cb)
                        (sort_key (\<lambda>e. - en_amount e) creditors)
                        (sort_key (\<lambda>e. - en_amount e) debtors) 0 0 g)))"

fun settle_all :: "(currency \<times> balances) list \<Rightarrow> group \<Rightarrow> error option \<times> group" where
  "settle_all [] g = (None, g)"
| "settle_all (cb # rest) g =
     (case settle_currency g cb of
        (Some err, g') \<Rightarrow> (Some err, g')
      | (None, g') \<Rightarrow> settle_all rest g')"

text \<open>\<open>this.simplifyDebt = []\<close>, the balances from the whole ledger, then the debts.\<close>

definition calculateDebts :: "group \<Rightarrow> error option \<times> group" where
  "calculateDebts g =
     (let g0 = g\<lparr>simplifyDebt := []\<rparr>
      in settle_all (all_balances g0) g0)"

section \<open>The expense ledger\<close>

definition totalSplit :: "split_item list \<Rightarrow> rat" where
  "totalSplit splitBetween = foldl (\<lambda>sum split. sum + s_amount split) 0 splitBetween"

definition new_expense ::
  "string \<Rightarrow> rat \<Rightarrow> currency \<Rightarrow> oid \<Rightarrow> string \<Rightarrow> split_item list \<Rightarrow>
   category option \<Rightarrow> string option \<Rightarrow> string option \<Rightarrow> int \<Rightarrow> expense" where
  "new_expense description amount cur paidBy paidByUsername splitBetween cat receiptUrl notes now =
     \<lparr>e_description = description, e_amount = amount, e_currency = cur,
      e_paidBy = paidBy, e_paidByUsername = paidByUsername,
      e_splitBetween = splitBetween,
      e_category = (case cat of None \<Rightarrow> Other | Some c \<Rightarrow> c),
      e_receiptUrl = receiptUrl, e_notes = notes, e_date = now\<rparr>"

text \<open>
  The three checks throw before the first mutation; \<open>category\<close>, \<open>receiptUrl\<close> and
  \<open>notes\<close> are optional arguments (\<open>category\<close> defaults to \<open>other\<close>); \<open>now\<close> is
  the value of \<open>new Date()\<close>.
\<close>

definition addExpense ::
  "group \<Rightarrow> string \<Rightarrow> rat \<Rightarrow> currency \<Rightarrow> oid \<Rightarrow> string \<Rightarrow> split_item list \<Rightarrow>
   category option \<Rightarrow> string option \<Rightarrow> string option \<Rightarrow> int \<Rightarrow> error option \<times> group" where
  "addExpense g description amount cur paidBy paidByUsername splitBetween cat receiptUrl notes now =
     (if \<not> allowMultipleCurrencies g \<and> cur \<noteq> defaultCurrency g
      then (Some CurrencyNotAllowed, g)
      else if length (filter (\<lambda>split. s_userId split \<notin> set (activeMemberIds g)) splitBetween) > 0
      then (Some InvalidSplitParticipant, g)
      else if \<bar>totalSplit splitBetween - amount\<bar> > 1/100
      then (Some SplitMismatch, g)
      else
        (let g1 = g\<lparr>billSplit := billSplit g @
                    [new_expense description amount cur paidBy paidByUsername splitBetween
                       cat receiptUrl notes now]\<rparr>
         in if autoSimplifyDebts g1
            then (case calculateDebts g1 of
                    (Some err, g2) \<Rightarrow> (Some err, g2)
                  | (None, g2) \<Rightarrow> (None, save g2))
            else (None, save g1)))"

section \<open>Settling a debt\<close>

definition settleDebt :: "group \<Rightarrow> oid \<Rightarrow> oid \<Rightarrow> int \<Rightarrow> error option \<times> group" where
  "settleDebt g debtId settledBy now =
     (case find (\<lambda>d. d_id d = debtId) (simplifyDebt g) of
        None \<Rightarrow> (Some DebtNotFound, g)
      | Some d \<Rightarrow>
          if d_status d \<noteq> Pending then (Some AlreadySettled, g)
          else (None, save (g\<lparr>simplifyDebt :=
                  update_first (\<lambda>d. d_id d = debtId)
                    (\<lambda>d. d\<lparr>d_status := Settled, d_settledAt := Some now,
                           d_settledBy := Some settledBy\<rparr>) (simplifyDebt g)\<rparr>)))"

section \<open>The recalculation request\<close>

text \<open>
  The controller's \<open>calculateGroupDebts\<close>, on the group it has loaded:
  \<open>group.calculateDebts(); await group.save()\<close>.
\<close>

definition calculateGroupDebts :: "group \<Rightarrow> error option \<times> group" where
  "calculateGroupDebts g =
     (case calculateDebts g of
        (Some err, g') \<Rightarrow> (Some err, g')
      | (None, g') \<Rightarrow> (None, save g'))"

section \<open>Notions used in the statements and their proofs\<close>

text \<open>
  The balance object of a currency (empty when the ledger has no expense in it), whether
  a balance is beyond the tolerance of 0.01 in magnitude, the number of ids whose balance
  is, and the debts of a currency.
\<close>

definition balances_in :: "group \<Rightarrow> currency \<Rightarrow> balances" where
  "balances_in g c = (case map_of (all_balances g) c of None \<Rightarrow> [] | Some b \<Rightarrow> b)"

definition beyond_tolerance :: "jsnum option \<Rightarrow> bool" where
  "beyond_tolerance v = (case v of Some (Num r) \<Rightarrow> \<bar>r\<bar> > 1/100 | _ \<Rightarrow> False)"

definition nonzero_members :: "group \<Rightarrow> currency \<Rightarrow> nat" where
  "nonzero_members g c =
     length (filter (\<lambda>i. beyond_tolerance (map_of (balances_in g c) i))
               (map fst (balances_in g c)))"

definition debts_in :: "group \<Rightarrow> currency \<Rightarrow> debt list" where
  "debts_in g c = filter (\<lambda>d. d_currency d = c) (simplifyDebt g)"

text \<open>
  A debt without its id; a debt as \<open>calculateDebts\<close> creates it: pending, with no
  settlement data.
\<close>

definition debt_triple :: "debt \<Rightarrow> party \<times> party \<times> rat" where
  "debt_triple d = (d_from d, d_to d, d_amount d)"

definition strip_id :: "debt \<Rightarrow> debt" where
  "strip_id d = d\<lparr>d_id := 0\<rparr>"

definition fresh_debt :: "debt \<Rightarrow> bool" where
  "fresh_debt d = (d_status d = Pending \<and> d_settledAt d = None \<and> d_settledBy d = None)"



text \<open>
  The expenses of a currency, and what an expense adds to the sum of the balances: its
  amount less its splits.
\<close>

definition ledger_in :: "group \<Rightarrow> currency \<Rightarrow> expense list" where
  "ledger_in g c = filter (\<lambda>e. e_currency e = c) (billSplit g)"


text \<open>
  Invariants of the proofs: a balance table gives a number (not \<open>NaN\<close>) only to ids of
  the list \<open>ids\<close>; the tables of \<open>debtsByCurrency\<close> have distinct currencies and are
  all such; a table holds no \<open>NaN\<close>, and then the sum of its numbers.
\<close>

definition nums_within :: "oid list \<Rightarrow> balances \<Rightarrow> bool" where
  "nums_within ids bal = (\<forall>k r. map_of bal k = Some (Num r) \<longrightarrow> k \<in> set ids)"

definition tables_ok :: "oid list \<Rightarrow> (currency \<times> balances) list \<Rightarrow> bool" where
  "tables_ok ids dbc = (distinct (map fst dbc) \<and> (\<forall>cb \<in> set dbc. nums_within ids (snd cb)))"

definition all_num :: "balances \<Rightarrow> bool" where
  "all_num bal = (NaN \<notin> set (map snd bal))"

fun num_of :: "jsnum \<Rightarrow> rat" where
  "num_of NaN = 0"
| "num_of (Num r) = r"

definition num_total :: "balances \<Rightarrow> rat" where
  "num_total bal = sum_list (map (\<lambda>p. num_of (snd p)) bal)"

text \<open>
  What the specification says a recomputation leaves for a currency: the greedy
  settlement of the balances that the whole ledger of that currency gives. The creditors
  and the debtors are lists, largest amount first; the heads are matched, the smaller of
  the two amounts is transferred (a debt is recorded when it exceeds 0.01), and a party
  whose remaining amount is below 0.01 leaves its list. A debt is given as its two
  parties and its amount.
\<close>

definition entries_of :: "membership list \<Rightarrow> (oid \<times> rat) list \<Rightarrow> entry list" where
  "entries_of ms xs =
     map (\<lambda>p. \<lparr>en_userId = fst p, en_amount = snd p,
                en_username = (case find (\<lambda>m. m_userId m = fst p) ms of
                                 Some m \<Rightarrow> m_username m | None \<Rightarrow> [])\<rparr>) xs"

function settle_list :: "entry list \<Rightarrow> entry list \<Rightarrow> (party \<times> party \<times> rat) list" where
  "settle_list [] ds = []"
| "settle_list (c # cs) [] = []"
| "settle_list (c # cs) (d # ds) =
     (let transfer = min (en_amount c) (en_amount d);
          emitted = (if transfer > 1/100
                     then [(\<lparr>p_userId = en_userId d, p_username = en_username d\<rparr>,
                            \<lparr>p_userId = en_userId c, p_username = en_username c\<rparr>,
                            round2 transfer)]
                     else []);
          c' = c\<lparr>en_amount := en_amount c - transfer\<rparr>;
          d' = d\<lparr>en_amount := en_amount d - transfer\<rparr>
      in emitted @ settle_list (if en_amount c' < 1/100 then cs else c' # cs)
                               (if en_amount d' < 1/100 then ds else d' # ds))"
  by pat_completeness auto
termination
  by (relation "measure (\<lambda>(cs, ds). length cs + length ds)")
     (auto simp: min_def split: if_splits)

definition rebuilt_triples :: "group \<Rightarrow> currency \<Rightarrow> (party \<times> party \<times> rat) list" where
  "rebuilt_triples g c =
     (let bal = foldl (apply_expense (activeMemberIds g)) [] (ledger_in g c)
      in settle_list
           (sort_key (\<lambda>e. - en_amount e) (entries_of (members g) (creditor_balances bal)))
           (sort_key (\<lambda>e. - en_amount e) (entries_of (members g) (debtor_balances bal))))"

declare settle_list.simps(3) [simp del]

section \<open>Scenarios\<close>

text \<open>
  The group of the specification's scenarios: default currency IDR, three members
  A (admin), B and C; the same group after C has left; a pending debt of C to A.
\<close>

definition mk_member :: "oid \<Rightarrow> string \<Rightarrow> role \<Rightarrow> bool \<Rightarrow> membership" where
  "mk_member i n r a = \<lparr>m_userId = i, m_username = n, m_joinedAt = 0, m_role = r, m_isActive = a\<rparr>"

definition mk_split :: "oid \<Rightarrow> string \<Rightarrow> rat \<Rightarrow> split_item" where
  "mk_split i n a = \<lparr>s_userId = i, s_username = n, s_amount = a\<rparr>"

definition trio :: group where
  "trio = \<lparr>members = [mk_member 1 ''A'' Admin True, mk_member 2 ''B'' Member True,
                      mk_member 3 ''C'' Member True],
           comments = [], billSplit = [], simplifyDebt = [],
           defaultCurrency = IDR, allowMultipleCurrencies = True, autoSimplifyDebts = True,
           maxMembers = 50, oidCounter = 0\<rparr>"

definition trio_c_left :: group where
  "trio_c_left = trio\<lparr>members := [mk_member 1 ''A'' Admin True, mk_member 2 ''B'' Member True,
                      mk_member 3 ''C'' Member False]\<rparr>"

definition c_owes_a :: debt where
  "c_owes_a = \<lparr>d_id = 7, d_from = \<lparr>p_userId = 3, p_username = ''C''\<rparr>,
      d_to = \<lparr>p_userId = 1, p_username = ''A''\<rparr>, d_amount = 100, d_currency = IDR,
      d_status = Pending, d_settledAt = None, d_settledBy = None\<rparr>"

text \<open>
  The first scenario: A pays 300, split evenly between A, B and C. The second expense of
  the scenarios: B pays 60, split evenly. A group whose only expense is paid by A for A
  alone.
\<close>

definition dinner_split :: "split_item list" where
  "dinner_split = [mk_split 1 ''A'' 100, mk_split 2 ''B'' 100, mk_split 3 ''C'' 100]"

definition after_dinner :: group where
  "after_dinner = snd (addExpense trio ''dinner'' 300 IDR 1 ''A'' dinner_split None None None 10)"

definition lunch_split :: "split_item list" where
  "lunch_split = [mk_split 1 ''A'' 20, mk_split 2 ''B'' 20, mk_split 3 ''C'' 20]"

definition settled_up :: group where
  "settled_up = trio\<lparr>billSplit :=
     [new_expense ''solo'' 100 IDR 1 ''A'' [mk_split 1 ''A'' 100] None None None 10]\<rparr>"



text \<open>
  After the first scenario B and C settle their debts to A (the debts have the ids 0 and
  1), and then A, who paid, is removed from the group.
\<close>

definition both_settled :: group where
  "both_settled = snd (settleDebt (snd (settleDebt after_dinner 0 2 20)) 1 3 21)"

definition a_left :: group where
  "a_left = snd (removeMember both_settled 1)"

section \<open>Auxiliary facts\<close>

lemma members_save [simp]: "members (save g) = members g"
  by (simp add: save_def)

lemma simplifyDebt_save [simp]: "simplifyDebt (save g) = simplifyDebt g"
  by (simp add: save_def)

lemma map_userId_update_first:
  "(\<And>m. m_userId (f m) = m_userId m) \<Longrightarrow> map m_userId (update_first P f xs) = map m_userId xs"
  by (induction xs) auto

lemma length_update_first [simp]: "length (update_first P f xs) = length xs"
  by (induction xs) auto

lemma update_first_distinct:
  "distinct (map m_userId xs) \<Longrightarrow>
   update_first (\<lambda>m. m_userId m = u) f xs = map (\<lambda>m. if m_userId m = u then f m else m) xs"
proof (induction xs)
  case Nil
  then show ?case by simp
next
  case (Cons x xs)
  have "u \<notin> set (map m_userId xs) \<Longrightarrow> map (\<lambda>m. if m_userId m = u then f m else m) xs = xs"
    by (induction xs) auto
  with Cons show ?case by auto
qed

lemma find_distinct:
  "distinct (map m_userId xs) \<Longrightarrow> m \<in> set xs \<Longrightarrow>
   find (\<lambda>x. m_userId x = m_userId m) xs = Some m"
  by (induction xs) force+

lemma find_userId_None:
  "(find (\<lambda>m. m_userId m = u) xs = None) = (u \<notin> set (map m_userId xs))"
  by (auto simp: find_None_iff)

lemma sweep_done: "\<not> (i < length cs \<and> j < length ds) \<Longrightarrow> sweep cur cs ds i j g = g"
  by (subst sweep.simps) auto

lemma sweep_step:
  "i < length cs \<Longrightarrow> j < length ds \<Longrightarrow> sweep_body cur cs ds i j g = (cs', ds', i', j', g') \<Longrightarrow>
   sweep cur cs ds i j g = sweep cur cs' ds' i' j' g'"
  by (subst sweep.simps) simp

lemma sweep_cases_induct [case_names stop step]:
  assumes d: "\<And>cur cs ds i j g. \<not> (i < length cs \<and> j < length ds) \<Longrightarrow> P cur cs ds i j g"
    and s: "\<And>cur cs ds i j g cs' ds' i' j' g'.
        i < length cs \<Longrightarrow> j < length ds \<Longrightarrow>
        sweep_body cur cs ds i j g = (cs', ds', i', j', g') \<Longrightarrow>
        P cur cs' ds' i' j' g' \<Longrightarrow> P cur cs ds i j g"
  shows "P cur cs ds i j g"
proof (induction cur cs ds i j g rule: sweep.induct)
  case (1 cur cs ds i j g)
  show ?case
  proof (cases "i < length cs \<and> j < length ds")
    case True
    obtain cs' ds' i' j' g' where b: "sweep_body cur cs ds i j g = (cs', ds', i', j', g')"
      by (metis prod_cases5)
    from "1.IH" [OF True b [symmetric] refl refl refl]
    have "P cur cs' ds' i' j' g'" .
    with True b show ?thesis by (auto intro: s)
  next
    case False
    then show ?thesis by (rule d)
  qed
qed

lemma sweep_body_frame:
  assumes "sweep_body cur cs ds i j g = (cs', ds', i', j', g')"
  shows "members g' = members g" "billSplit g' = billSplit g" "comments g' = comments g"
    "defaultCurrency g' = defaultCurrency g" "allowMultipleCurrencies g' = allowMultipleCurrencies g"
    "autoSimplifyDebts g' = autoSimplifyDebts g" "maxMembers g' = maxMembers g"
  using assms by (auto simp: sweep_body_def Let_def push_debt_def split: if_splits)

lemma sweep_members [simp]: "members (sweep cur cs ds i j g) = members g"
  by (induction cur cs ds i j g rule: sweep_cases_induct)
     (simp_all add: sweep_done sweep_step sweep_body_frame)

lemma sweep_billSplit [simp]: "billSplit (sweep cur cs ds i j g) = billSplit g"
  by (induction cur cs ds i j g rule: sweep_cases_induct)
     (simp_all add: sweep_done sweep_step sweep_body_frame)

lemma sweep_body_shape:
  assumes "sweep_body cur cs ds i j g = (cs', ds', i', j', g')"
  shows "length cs' = length cs" "length ds' = length ds"
    "i \<le> i'" "j \<le> j'" "i' \<le> Suc i" "j' \<le> Suc j"
  using assms by (auto simp: sweep_body_def Let_def split: if_splits)

lemma sweep_body_progress:
  assumes "sweep_body cur cs ds i j g = (cs', ds', i', j', g')" "i < length cs" "j < length ds"
  shows "i + j < i' + j'"
  using assms by (auto simp: sweep_body_def Let_def min_def split: if_splits)

text \<open>What one pass of the loop body appends to the debt list.\<close>
lemma sweep_body_debts:
  assumes "sweep_body cur cs ds i j g = (cs', ds', i', j', g')"
  shows "\<exists>new. simplifyDebt g' = simplifyDebt g @ new \<and> length new \<le> 1 \<and>
     (\<forall>d\<in>set new. d_currency d = cur \<and> d_status d = Pending \<and> d_settledAt d = None \<and>
        d_settledBy d = None \<and>
        p_userId (d_from d) = en_userId (ds ! j) \<and> p_userId (d_to d) = en_userId (cs ! i))"
  using assms by (auto simp: sweep_body_def Let_def push_debt_def new_debt_def split: if_splits)

lemma map_userId_set_amount:
  "map en_userId (xs[i := (xs ! i)\<lparr>en_amount := a\<rparr>]) = map en_userId xs"
proof (cases "i < length xs")
  case True
  then have "(map en_userId xs)[i := en_userId (xs ! i)] = map en_userId xs"
    by (metis list_update_id nth_map)
  then show ?thesis by (simp add: map_update)
next
  case False
  then show ?thesis by (simp add: list_update_beyond)
qed

lemma sweep_body_userIds:
  assumes "sweep_body cur cs ds i j g = (cs', ds', i', j', g')"
  shows "map en_userId cs' = map en_userId cs" "map en_userId ds' = map en_userId ds"
  using assms by (auto simp: sweep_body_def Let_def map_userId_set_amount)

lemma sweep_userIds:
  "sweep_body cur cs ds i j g = (cs', ds', i', j', g') \<Longrightarrow>
   set (map en_userId cs') = set (map en_userId cs) \<and> set (map en_userId ds') = set (map en_userId ds)"
  by (simp only: sweep_body_userIds)

lemma sweep_appends:
  "\<exists>new. simplifyDebt (sweep cur cs ds i j g) = simplifyDebt g @ new \<and>
     length new \<le> (length cs - i) + (length ds - j) - 1 \<and>
     (\<not> (i < length cs \<and> j < length ds) \<longrightarrow> new = []) \<and>
     (\<forall>d\<in>set new. d_currency d = cur \<and> d_status d = Pending \<and> d_settledAt d = None \<and>
        d_settledBy d = None \<and>
        p_userId (d_from d) \<in> set (map en_userId ds) \<and>
        p_userId (d_to d) \<in> set (map en_userId cs))"
proof (induction cur cs ds i j g rule: sweep_cases_induct)
  case (stop cur cs ds i j g)
  then show ?case by (simp add: sweep_done)
next
  case (step cur cs ds i j g cs' ds' i' j' g')
  note b = step.hyps(3)
  from sweep_body_debts [OF b] obtain n1 where n1:
    "simplifyDebt g' = simplifyDebt g @ n1" "length n1 \<le> 1"
    "\<forall>d\<in>set n1. d_currency d = cur \<and> d_status d = Pending \<and> d_settledAt d = None \<and>
        d_settledBy d = None \<and>
        p_userId (d_from d) = en_userId (ds ! j) \<and> p_userId (d_to d) = en_userId (cs ! i)"
    by blast
  from step.IH obtain n2 where n2:
    "simplifyDebt (sweep cur cs' ds' i' j' g') = simplifyDebt g' @ n2"
    "length n2 \<le> (length cs' - i') + (length ds' - j') - 1"
    "\<not> (i' < length cs' \<and> j' < length ds') \<longrightarrow> n2 = []"
    "\<forall>d\<in>set n2. d_currency d = cur \<and> d_status d = Pending \<and> d_settledAt d = None \<and>
        d_settledBy d = None \<and>
        p_userId (d_from d) \<in> set (map en_userId ds') \<and>
        p_userId (d_to d) \<in> set (map en_userId cs')"
    by blast
  note sh = sweep_body_shape [OF b] sweep_body_progress [OF b step.hyps(1,2)]
  have len: "length (n1 @ n2) \<le> (length cs - i) + (length ds - j) - 1"
  proof (cases "i' < length cs' \<and> j' < length ds'")
    case True
    then have lt: "i' < length cs" "j' < length ds" using sh(1,2) by simp_all
    then have "i' + j' + 2 \<le> length cs + length ds" by simp
    moreover have "length n2 \<le> (length cs - i') + (length ds - j') - 1"
      using n2(2) sh(1,2) by simp
    with lt have "length n2 \<le> length cs + length ds - Suc (i' + j')"
      by linarith
    moreover note n1(2) sh(7)
    ultimately have "length n1 + length n2 \<le> length cs + length ds - Suc (i + j)"
      by linarith
    then show ?thesis by simp
  next
    case False
    with n2(3) have "n2 = []" by simp
    with n1(2) step.hyps(1,2) show ?thesis by simp
  qed
  have ids: "en_userId (ds ! j) \<in> set (map en_userId ds)" "en_userId (cs ! i) \<in> set (map en_userId cs)"
    using step.hyps(1,2) by simp_all
  have props: "\<forall>d\<in>set (n1 @ n2). d_currency d = cur \<and> d_status d = Pending \<and> d_settledAt d = None \<and>
        d_settledBy d = None \<and>
        p_userId (d_from d) \<in> set (map en_userId ds) \<and>
        p_userId (d_to d) \<in> set (map en_userId cs)"
    using n1(3) n2(4) ids sweep_body_userIds [OF b] by auto
  have "simplifyDebt (sweep cur cs ds i j g) = simplifyDebt g @ (n1 @ n2)"
    using sweep_step [OF step.hyps(1,2) b] n1(1) n2(1) by simp
  with len props step.hyps(1,2) show ?case by blast
qed

subsection \<open>Balance tables\<close>

lemma map_of_init_balance:
  "map_of (init_balance bal m) k =
     (if k = m then (case map_of bal m of Some (Num r) \<Rightarrow> Some (Num r) | _ \<Rightarrow> Some (Num 0))
      else map_of bal k)"
  by (auto simp: init_balance_def update_conv' split: option.splits jsnum.splits)

lemma map_of_add_to:
  "map_of (add_to bal k a) = (map_of bal)(k \<mapsto> js_add (map_of bal k) a)"
  by (simp add: add_to_def update_conv')

lemma nums_within_init:
  "nums_within ids bal \<Longrightarrow> m \<in> set ids \<Longrightarrow> nums_within ids (init_balance bal m)"
  by (auto simp: nums_within_def map_of_init_balance split: if_splits option.splits jsnum.splits)

lemma nums_within_inits:
  "nums_within ids bal \<Longrightarrow> set ms \<subseteq> set ids \<Longrightarrow> nums_within ids (foldl init_balance bal ms)"
  by (induction ms arbitrary: bal) (auto simp: nums_within_init)

lemma nums_within_add_to:
  "nums_within ids bal \<Longrightarrow> nums_within ids (add_to bal k a)"
  by (auto simp: nums_within_def map_of_add_to js_add_def split: if_splits option.splits jsnum.splits)

lemma nums_within_splits:
  "nums_within ids bal \<Longrightarrow>
   nums_within ids (foldl (\<lambda>b s. add_to b (s_userId s) (- s_amount s)) bal ss)"
  by (induction ss arbitrary: bal) (auto simp: nums_within_add_to)

lemma nums_within_Nil [simp]: "nums_within ids []"
  by (simp add: nums_within_def)

lemma tables_ok_lookup:
  "tables_ok ids dbc \<Longrightarrow> map_of dbc c = Some b \<Longrightarrow> nums_within ids b"
  by (auto simp: tables_ok_def dest: map_of_SomeD)

lemma set_update_subset: "set (AList.update k v al) \<subseteq> insert (k, v) (set al)"
  by (induction al) auto

lemma tables_ok_step:
  assumes "tables_ok ids dbc"
  shows "tables_ok ids (expense_step ids dbc e)"
proof -
  let ?b0 = "case map_of dbc (e_currency e) of None \<Rightarrow> [] | Some b \<Rightarrow> b"
  have "nums_within ids ?b0"
    using tables_ok_lookup [OF assms] by (auto split: option.splits)
  then have "nums_within ids (apply_expense ids ?b0 e)"
    unfolding apply_expense_def Let_def
    by (intro nums_within_splits nums_within_add_to nums_within_inits) simp_all
  with assms set_update_subset show ?thesis
    unfolding tables_ok_def expense_step_def Let_def
    by (fastforce simp: distinct_update)
qed

lemma tables_ok_foldl:
  "tables_ok ids dbc \<Longrightarrow> tables_ok ids (foldl (expense_step ids) dbc es)"
  by (induction es arbitrary: dbc) (auto simp: tables_ok_step)

lemma tables_ok_all_balances: "tables_ok (activeMemberIds g) (all_balances g)"
  unfolding all_balances_def by (rule tables_ok_foldl) (simp add: tables_ok_def)

subsection \<open>The username lookup never fails\<close>

lemma mk_entries_Some:
  "\<forall>p\<in>set xs. fst p \<in> set (map m_userId ms) \<Longrightarrow>
   \<exists>es. mk_entries ms xs = Some es \<and> map en_userId es = map fst xs \<and> map en_amount es = map snd xs"
proof (induction xs)
  case Nil
  then show ?case by simp
next
  case (Cons p xs)
  obtain i a where p: "p = (i, a)" by (cases p)
  from Cons.prems p have "find (\<lambda>m. m_userId m = i) ms \<noteq> None"
    using find_userId_None [of i ms] by simp
  then obtain m where "find (\<lambda>m. m_userId m = i) ms = Some m" by blast
  moreover from Cons obtain es where "mk_entries ms xs = Some es"
    "map en_userId es = map fst xs" "map en_amount es = map snd xs" by auto
  ultimately show ?case using p by simp
qed

lemma mk_entries_shape:
  "mk_entries ms xs = Some es \<Longrightarrow> map en_userId es = map fst xs \<and> map en_amount es = map snd xs"
  by (induction xs arbitrary: es) (auto split: option.splits)

lemma set_map_filter:
  "set (List.map_filter f xs) = {y. \<exists>x\<in>set xs. f x = Some y}"
  by (induction xs) (auto split: option.splits)

lemma length_map_filter:
  "length (List.map_filter f xs) = length (filter (\<lambda>x. f x \<noteq> None) xs)"
  by (simp add: List.map_filter_def)

lemma creditor_balances_D:
  assumes "p \<in> set (creditor_balances bal)"
  shows "map_of bal (fst p) = Some (Num (snd p)) \<and> snd p > 1/100"
proof -
  from assms obtain i where
    "(case map_of bal i of
        Some (Num r) \<Rightarrow> if r > 1/100 then Some (i, r) else None
      | _ \<Rightarrow> None) = Some p"
    unfolding creditor_balances_def set_map_filter by blast
  then show ?thesis
    by (cases "map_of bal i") (auto split: jsnum.splits if_splits)
qed

lemma debtor_balances_D:
  assumes "p \<in> set (debtor_balances bal)"
  shows "\<exists>r. map_of bal (fst p) = Some (Num r) \<and> r < - (1/100) \<and> snd p = \<bar>r\<bar>"
proof -
  from assms obtain i where
    "(case map_of bal i of
        Some (Num r) \<Rightarrow> if r < - (1/100) then Some (i, \<bar>r\<bar>) else None
      | _ \<Rightarrow> None) = Some p"
    unfolding debtor_balances_def set_map_filter by blast
  then show ?thesis
    by (cases "map_of bal i") (auto split: jsnum.splits if_splits)
qed

lemma creditor_balances_num:
  "p \<in> set (creditor_balances bal) \<Longrightarrow> \<exists>r. map_of bal (fst p) = Some (Num r)"
  using creditor_balances_D by blast

lemma debtor_balances_num:
  "p \<in> set (debtor_balances bal) \<Longrightarrow> \<exists>r. map_of bal (fst p) = Some (Num r)"
  using debtor_balances_D by blast

lemma activeMemberIds_subset: "set (activeMemberIds g) \<subseteq> set (map m_userId (members g))"
  by (auto simp: activeMemberIds_def)

lemma settle_currency_ok:
  assumes "nums_within ids (snd cb)" "set ids \<subseteq> set (map m_userId (members g))"
  shows "\<exists>cs ds. mk_entries (members g) (creditor_balances (snd cb)) = Some cs \<and>
     mk_entries (members g) (debtor_balances (snd cb)) = Some ds \<and>
     settle_currency g cb =
       (None, sweep (fst cb) (sort_key (\<lambda>e. - en_amount e) cs) (sort_key (\<lambda>e. - en_amount e) ds) 0 0 g)"
proof -
  have "\<forall>p\<in>set (creditor_balances (snd cb)). fst p \<in> set (map m_userId (members g))"
    using assms creditor_balances_num unfolding nums_within_def by blast
  from mk_entries_Some [OF this] obtain cs where
    cs: "mk_entries (members g) (creditor_balances (snd cb)) = Some cs" by blast
  have "\<forall>p\<in>set (debtor_balances (snd cb)). fst p \<in> set (map m_userId (members g))"
    using assms debtor_balances_num unfolding nums_within_def by blast
  from mk_entries_Some [OF this] obtain ds where
    ds: "mk_entries (members g) (debtor_balances (snd cb)) = Some ds" by blast
  from cs ds show ?thesis by (simp add: settle_currency_def)
qed

lemma settle_currency_members [simp]: "members (snd (settle_currency g cb)) = members g"
  by (simp add: settle_currency_def split: option.splits)

lemma settle_all_ok:
  "\<forall>cb\<in>set dbc. nums_within ids (snd cb) \<Longrightarrow> set ids \<subseteq> set (map m_userId (members g)) \<Longrightarrow>
   fst (settle_all dbc g) = None"
proof (induction dbc arbitrary: g)
  case Nil
  then show ?case by simp
next
  case (Cons cb dbc)
  from settle_currency_ok [of ids cb g] Cons.prems obtain g' where
    g': "settle_currency g cb = (None, g')" by auto
  then have "members g' = members g"
    using settle_currency_members [of g cb] by simp
  with Cons g' show ?case by simp
qed

lemma calculateDebts_no_error: "fst (calculateDebts g) = None"
proof -
  let ?g0 = "g\<lparr>simplifyDebt := []\<rparr>"
  have "tables_ok (activeMemberIds ?g0) (all_balances ?g0)"
    by (rule tables_ok_all_balances)
  then have "\<forall>cb\<in>set (all_balances ?g0). nums_within (activeMemberIds ?g0) (snd cb)"
    by (simp add: tables_ok_def)
  from settle_all_ok [OF this activeMemberIds_subset]
  show ?thesis by (simp add: calculateDebts_def Let_def)
qed

subsection \<open>Outcome of addExpense\<close>

lemma addExpense_fst:
  "fst (addExpense g de a cur p pn sb cat ru no now) =
     (if \<not> allowMultipleCurrencies g \<and> cur \<noteq> defaultCurrency g then Some CurrencyNotAllowed
      else if \<exists>s\<in>set sb. s_userId s \<notin> set (activeMemberIds g) then Some InvalidSplitParticipant
      else if \<bar>totalSplit sb - a\<bar> > 1/100 then Some SplitMismatch
      else None)"
proof -
  have f: "(0 < length (filter (\<lambda>s. s_userId s \<notin> set (activeMemberIds g)) sb)) =
           (\<exists>s\<in>set sb. s_userId s \<notin> set (activeMemberIds g))"
    by (simp add: filter_empty_conv)
  have c: "(case calculateDebts h of (Some err, g2) \<Rightarrow> (Some err, g2) | (None, g2) \<Rightarrow> (None, save g2)) =
           (None, save (snd (calculateDebts h)))" for h
    using calculateDebts_no_error [of h] by (cases "calculateDebts h") auto
  show ?thesis
    unfolding addExpense_def Let_def f c by simp
qed


lemma settle_currency_billSplit [simp]: "billSplit (snd (settle_currency g cb)) = billSplit g"
  by (simp add: settle_currency_def split: option.splits)

lemma settle_all_frame [simp]:
  "billSplit (snd (settle_all dbc g)) = billSplit g" "members (snd (settle_all dbc g)) = members g"
proof (induction dbc arbitrary: g)
  case Nil
  { case 1 show ?case by simp }
  { case 2 show ?case by simp }
next
  case (Cons cb dbc)
  { case 1
    show ?case
      using Cons(1) [of "snd (settle_currency g cb)"] settle_currency_billSplit [of g cb]
      by (cases "settle_currency g cb") (auto split: option.splits) }
  { case 2
    show ?case
      using Cons(2) [of "snd (settle_currency g cb)"] settle_currency_members [of g cb]
      by (cases "settle_currency g cb") (auto split: option.splits) }
qed

lemma calculateDebts_frame [simp]:
  "billSplit (snd (calculateDebts g)) = billSplit g" "members (snd (calculateDebts g)) = members g"
  by (simp_all add: calculateDebts_def Let_def)

lemma billSplit_save: "billSplit (save g) = sort_key (\<lambda>e. - e_date e) (billSplit g)"
  by (simp add: save_def)

lemma addExpense_accepted:
  assumes "fst (addExpense g de a cur p pn sb cat ru no now) = None"
  shows "billSplit (snd (addExpense g de a cur p pn sb cat ru no now)) =
           sort_key (\<lambda>e. - e_date e) (billSplit g @ [new_expense de a cur p pn sb cat ru no now])"
    and "simplifyDebt (snd (addExpense g de a cur p pn sb cat ru no now)) =
           (if autoSimplifyDebts g
            then simplifyDebt (snd (calculateDebts
                   (g\<lparr>billSplit := billSplit g @ [new_expense de a cur p pn sb cat ru no now]\<rparr>)))
            else simplifyDebt g)"
    and "members (snd (addExpense g de a cur p pn sb cat ru no now)) = members g"
proof -
  have c: "(case calculateDebts h of (Some err, g2) \<Rightarrow> (Some err, g2) | (None, g2) \<Rightarrow> (None, save g2)) =
           (None, save (snd (calculateDebts h)))" for h
    using calculateDebts_no_error [of h] by (cases "calculateDebts h") auto
  show "billSplit (snd (addExpense g de a cur p pn sb cat ru no now)) =
           sort_key (\<lambda>e. - e_date e) (billSplit g @ [new_expense de a cur p pn sb cat ru no now])"
    using assms unfolding addExpense_def Let_def c
    by (auto simp: billSplit_save split: if_splits)
  show "simplifyDebt (snd (addExpense g de a cur p pn sb cat ru no now)) =
           (if autoSimplifyDebts g
            then simplifyDebt (snd (calculateDebts
                   (g\<lparr>billSplit := billSplit g @ [new_expense de a cur p pn sb cat ru no now]\<rparr>)))
            else simplifyDebt g)"
    using assms unfolding addExpense_def Let_def c
    by (auto split: if_splits)
  show "members (snd (addExpense g de a cur p pn sb cat ru no now)) = members g"
    using assms unfolding addExpense_def Let_def c
    by (auto split: if_splits)
qed

subsection \<open>What a run of the simplifier appends\<close>

lemma tolerance_count:
  "length (creditor_balances bal) + length (debtor_balances bal) =
   length (filter (\<lambda>i. beyond_tolerance (map_of bal i)) (map fst bal))"
proof -
  have "length (List.map_filter
          (\<lambda>i. case map_of bal i of
                  Some (Num r) \<Rightarrow> if r > 1/100 then Some (i, r) else None
                | _ \<Rightarrow> None) ks) +
        length (List.map_filter
          (\<lambda>i. case map_of bal i of
                  Some (Num r) \<Rightarrow> if r < - (1/100) then Some (i, \<bar>r\<bar>) else None
                | _ \<Rightarrow> None) ks) =
        length (filter (\<lambda>i. beyond_tolerance (map_of bal i)) ks)" for ks
  proof (induction ks)
    case Nil
    then show ?case by simp
  next
    case (Cons k ks)
    show ?case
    proof (cases "map_of bal k")
      case None
      with Cons show ?thesis by (simp add: beyond_tolerance_def)
    next
      case (Some v)
      with Cons show ?thesis
        by (cases v) (auto simp: beyond_tolerance_def)
    qed
  qed
  then show ?thesis by (simp add: creditor_balances_def debtor_balances_def)
qed

lemma settle_currency_appends:
  "\<exists>new. simplifyDebt (snd (settle_currency g cb)) = simplifyDebt g @ new \<and>
     length new \<le> length (creditor_balances (snd cb)) + length (debtor_balances (snd cb)) - 1 \<and>
     (\<forall>d\<in>set new. d_currency d = fst cb \<and> fresh_debt d \<and>
        p_userId (d_from d) \<in> set (map fst (debtor_balances (snd cb))) \<and>
        p_userId (d_to d) \<in> set (map fst (creditor_balances (snd cb))))"
proof (cases "mk_entries (members g) (creditor_balances (snd cb))")
  case None
  then show ?thesis by (simp add: settle_currency_def)
next
  case cs: (Some cs)
  show ?thesis
  proof (cases "mk_entries (members g) (debtor_balances (snd cb))")
    case None
    with cs show ?thesis by (simp add: settle_currency_def)
  next
    case ds: (Some ds)
    let ?cs = "sort_key (\<lambda>e. - en_amount e) cs" and ?ds = "sort_key (\<lambda>e. - en_amount e) ds"
    from sweep_appends [of "fst cb" ?cs ?ds 0 0 g] obtain new where new:
      "simplifyDebt (sweep (fst cb) ?cs ?ds 0 0 g) = simplifyDebt g @ new"
      "length new \<le> length ?cs - 0 + (length ?ds - 0) - 1"
      "\<forall>d\<in>set new. d_currency d = fst cb \<and> d_status d = Pending \<and> d_settledAt d = None \<and>
        d_settledBy d = None \<and>
        p_userId (d_from d) \<in> set (map en_userId ?ds) \<and>
        p_userId (d_to d) \<in> set (map en_userId ?cs)"
      by blast
    have l: "length cs = length (creditor_balances (snd cb))"
            "length ds = length (debtor_balances (snd cb))"
      using mk_entries_shape [OF cs] mk_entries_shape [OF ds] by (metis length_map)+
    have s: "set (map en_userId ?cs) = set (map fst (creditor_balances (snd cb)))"
            "set (map en_userId ?ds) = set (map fst (debtor_balances (snd cb)))"
      using mk_entries_shape [OF cs] mk_entries_shape [OF ds] by (metis set_map set_sort)+
    have "simplifyDebt (snd (settle_currency g cb)) = simplifyDebt g @ new"
      using cs ds new(1) by (simp add: settle_currency_def)
    moreover have "length new \<le>
        length (creditor_balances (snd cb)) + length (debtor_balances (snd cb)) - 1"
      using new(2) l by simp
    moreover have "\<forall>d\<in>set new. d_currency d = fst cb \<and> fresh_debt d \<and>
        p_userId (d_from d) \<in> set (map fst (debtor_balances (snd cb))) \<and>
        p_userId (d_to d) \<in> set (map fst (creditor_balances (snd cb)))"
      using new(3) unfolding s fresh_debt_def by blast
    ultimately show ?thesis by blast
  qed
qed

lemma settle_all_appends:
  assumes "distinct (map fst dbc)"
  shows "\<exists>new. simplifyDebt (snd (settle_all dbc g)) = simplifyDebt g @ new \<and>
     (\<forall>c. length (filter (\<lambda>d. d_currency d = c) new) \<le>
        (case map_of dbc c of None \<Rightarrow> 0
         | Some bal \<Rightarrow> length (creditor_balances bal) + length (debtor_balances bal) - 1)) \<and>
     (\<forall>d\<in>set new. fresh_debt d \<and>
        (\<exists>bal. (d_currency d, bal) \<in> set dbc \<and>
           p_userId (d_from d) \<in> set (map fst (debtor_balances bal)) \<and>
           p_userId (d_to d) \<in> set (map fst (creditor_balances bal))))"
  using assms
proof (induction dbc arbitrary: g)
  case Nil
  then show ?case by simp
next
  case (Cons cb dbc)
  obtain e g' where r: "settle_currency g cb = (e, g')" by (cases "settle_currency g cb")
  from settle_currency_appends [of g cb] r obtain n1 where n1:
    "simplifyDebt g' = simplifyDebt g @ n1"
    "length n1 \<le> length (creditor_balances (snd cb)) + length (debtor_balances (snd cb)) - 1"
    "\<forall>d\<in>set n1. d_currency d = fst cb \<and> fresh_debt d \<and>
        p_userId (d_from d) \<in> set (map fst (debtor_balances (snd cb))) \<and>
        p_userId (d_to d) \<in> set (map fst (creditor_balances (snd cb)))"
    by auto
  show ?case
  proof (cases e)
    case (Some err)
    have "length (filter (\<lambda>d. d_currency d = c) n1) \<le>
        (case map_of (cb # dbc) c of None \<Rightarrow> 0
         | Some bal \<Rightarrow> length (creditor_balances bal) + length (debtor_balances bal) - 1)" for c
    proof (cases "c = fst cb")
      case True
      have "length (filter (\<lambda>d. d_currency d = c) n1) \<le> length n1" by simp
      also note n1(2)
      finally show ?thesis using True by simp
    next
      case False
      with n1(3) have "filter (\<lambda>d. d_currency d = c) n1 = []"
        by (auto simp: filter_empty_conv)
      then show ?thesis by simp
    qed
    moreover have "\<forall>d\<in>set n1. fresh_debt d \<and>
        (\<exists>bal. (d_currency d, bal) \<in> set (cb # dbc) \<and>
           p_userId (d_from d) \<in> set (map fst (debtor_balances bal)) \<and>
           p_userId (d_to d) \<in> set (map fst (creditor_balances bal)))"
    proof
      fix d assume "d \<in> set n1"
      with n1(3) have "d_currency d = fst cb \<and> fresh_debt d \<and>
        p_userId (d_from d) \<in> set (map fst (debtor_balances (snd cb))) \<and>
        p_userId (d_to d) \<in> set (map fst (creditor_balances (snd cb)))" by blast
      then show "fresh_debt d \<and>
        (\<exists>bal. (d_currency d, bal) \<in> set (cb # dbc) \<and>
           p_userId (d_from d) \<in> set (map fst (debtor_balances bal)) \<and>
           p_userId (d_to d) \<in> set (map fst (creditor_balances bal)))"
        by (intro conjI exI [of _ "snd cb"]) simp_all
    qed
    moreover have "simplifyDebt (snd (settle_all (cb # dbc) g)) = simplifyDebt g @ n1"
      using r Some n1(1) by simp
    ultimately show ?thesis by blast
  next
    case None
    from Cons.prems have dist: "distinct (map fst dbc)" and fresh: "fst cb \<notin> set (map fst dbc)"
      by simp_all
    from Cons.IH [OF dist, of g'] obtain n2 where n2:
      "simplifyDebt (snd (settle_all dbc g')) = simplifyDebt g' @ n2"
      "\<And>c. length (filter (\<lambda>d. d_currency d = c) n2) \<le>
        (case map_of dbc c of None \<Rightarrow> 0
         | Some bal \<Rightarrow> length (creditor_balances bal) + length (debtor_balances bal) - 1)"
      "\<forall>d\<in>set n2. fresh_debt d \<and>
        (\<exists>bal. (d_currency d, bal) \<in> set dbc \<and>
           p_userId (d_from d) \<in> set (map fst (debtor_balances bal)) \<and>
           p_userId (d_to d) \<in> set (map fst (creditor_balances bal)))"
      by blast
    have cnt: "length (filter (\<lambda>d. d_currency d = c) (n1 @ n2)) \<le>
        (case map_of (cb # dbc) c of None \<Rightarrow> 0
         | Some bal \<Rightarrow> length (creditor_balances bal) + length (debtor_balances bal) - 1)" for c
    proof (cases "c = fst cb")
      case True
      with fresh have "map_of dbc c = None"
        by (simp add: map_of_eq_None_iff)
      with n2(2) [of c] have "filter (\<lambda>d. d_currency d = c) n2 = []" by simp
      moreover have "length (filter (\<lambda>d. d_currency d = c) n1) \<le> length n1" by simp
      moreover note n1(2)
      ultimately have "length (filter (\<lambda>d. d_currency d = c) (n1 @ n2)) \<le>
          length (creditor_balances (snd cb)) + length (debtor_balances (snd cb)) - 1"
        by (simp del: length_filter_le)
      then show ?thesis using True by simp
    next
      case False
      with n1(3) have "filter (\<lambda>d. d_currency d = c) n1 = []"
        by (auto simp: filter_empty_conv)
      with n2(2) [of c] False show ?thesis by simp
    qed
    have props: "\<forall>d\<in>set (n1 @ n2). fresh_debt d \<and>
        (\<exists>bal. (d_currency d, bal) \<in> set (cb # dbc) \<and>
           p_userId (d_from d) \<in> set (map fst (debtor_balances bal)) \<and>
           p_userId (d_to d) \<in> set (map fst (creditor_balances bal)))"
    proof
      fix d assume "d \<in> set (n1 @ n2)"
      then consider "d \<in> set n1" | "d \<in> set n2" by auto
      then show "fresh_debt d \<and>
        (\<exists>bal. (d_currency d, bal) \<in> set (cb # dbc) \<and>
           p_userId (d_from d) \<in> set (map fst (debtor_balances bal)) \<and>
           p_userId (d_to d) \<in> set (map fst (creditor_balances bal)))"
      proof cases
        case 1
        with n1(3) have "d_currency d = fst cb \<and> fresh_debt d \<and>
          p_userId (d_from d) \<in> set (map fst (debtor_balances (snd cb))) \<and>
          p_userId (d_to d) \<in> set (map fst (creditor_balances (snd cb)))" by blast
        then show ?thesis by (intro conjI exI [of _ "snd cb"]) simp_all
      next
        case 2
        with n2(3) obtain bal where "fresh_debt d" "(d_currency d, bal) \<in> set dbc"
          "p_userId (d_from d) \<in> set (map fst (debtor_balances bal))"
          "p_userId (d_to d) \<in> set (map fst (creditor_balances bal))" by blast
        then show ?thesis by (intro conjI exI [of _ bal]) simp_all
      qed
    qed
    have "simplifyDebt (snd (settle_all (cb # dbc) g)) = simplifyDebt g @ (n1 @ n2)"
      using r None n1(1) n2(1) by simp
    with cnt props show ?thesis by blast
  qed
qed

subsection \<open>The debts of a currency as a settlement of lists\<close>

lemma all_balances_cong:
  "members g = members h \<Longrightarrow> billSplit g = billSplit h \<Longrightarrow> all_balances g = all_balances h"
  by (simp add: all_balances_def activeMemberIds_def)

lemma calculateDebts_unfold:
  "calculateDebts g = settle_all (all_balances g) (g\<lparr>simplifyDebt := []\<rparr>)"
proof -
  have "all_balances (g\<lparr>simplifyDebt := []\<rparr>) = all_balances g"
    by (rule all_balances_cong) simp_all
  then show ?thesis by (simp add: calculateDebts_def Let_def)
qed

text \<open>The balance object of one currency is built from the expenses of that currency.\<close>

lemma lookup_expense_step:
  "(case map_of (expense_step ids dbc e) c of None \<Rightarrow> [] | Some b \<Rightarrow> b) =
   (if e_currency e = c
    then apply_expense ids (case map_of dbc c of None \<Rightarrow> [] | Some b \<Rightarrow> b) e
    else (case map_of dbc c of None \<Rightarrow> [] | Some b \<Rightarrow> b))"
  by (simp add: expense_step_def Let_def update_conv')

lemma lookup_foldl_expense_step:
  "(case map_of (foldl (expense_step ids) dbc es) c of None \<Rightarrow> [] | Some b \<Rightarrow> b) =
   foldl (apply_expense ids) (case map_of dbc c of None \<Rightarrow> [] | Some b \<Rightarrow> b)
     (filter (\<lambda>e. e_currency e = c) es)"
proof (induction es arbitrary: dbc)
  case Nil
  then show ?case by simp
next
  case (Cons e es)
  show ?case
    using Cons.IH [of "expense_step ids dbc e"] lookup_expense_step [of ids dbc e c]
    by (cases "e_currency e = c") simp_all
qed

lemma balances_in_ledger:
  "balances_in g c = foldl (apply_expense (activeMemberIds g)) [] (ledger_in g c)"
  using lookup_foldl_expense_step [of "activeMemberIds g" "[]" "billSplit g" c]
  by (simp add: balances_in_def all_balances_def ledger_in_def)

lemma mk_entries_entries_of: "mk_entries ms xs = Some es \<Longrightarrow> es = entries_of ms xs"
  by (induction xs arbitrary: es) (auto simp: entries_of_def split: option.splits)

lemma drop_update_here:
  "i < length xs \<Longrightarrow> drop i (xs[i := x]) = x # drop (Suc i) xs"
  by (metis Cons_nth_drop_Suc drop_update_cancel length_list_update lessI nth_list_update_eq)

lemma sweep_body_lists:
  assumes b: "sweep_body cur cs ds i j g = (cs', ds', i', j', g')"
    and i: "i < length cs" and j: "j < length ds"
  shows "\<exists>new. simplifyDebt g' = simplifyDebt g @ new \<and>
     settle_list (drop i cs) (drop j ds) = map debt_triple new @ settle_list (drop i' cs') (drop j' ds')"
proof -
  let ?c = "cs ! i" and ?d = "ds ! j"
  let ?s = "min (en_amount ?c) (en_amount ?d)"
  let ?c' = "?c\<lparr>en_amount := en_amount ?c - ?s\<rparr>" and ?d' = "?d\<lparr>en_amount := en_amount ?d - ?s\<rparr>"
  have n: "cs[i := ?c'] ! i = ?c'" "ds[j := ?d'] ! j = ?d'"
    using i j by simp_all
  from b have "(cs[i := ?c'], ds[j := ?d'],
       (if en_amount (cs[i := ?c'] ! i) < 1/100 then i + 1 else i),
       (if en_amount (ds[j := ?d'] ! j) < 1/100 then j + 1 else j),
       (if ?s > 1/100 then push_debt g (new_debt ?d ?c ?s cur) else g)) = (cs', ds', i', j', g')"
    unfolding sweep_body_def Let_def .
  then have cs': "cs' = cs[i := ?c']" and ds': "ds' = ds[j := ?d']"
    and i': "i' = (if en_amount ?c' < 1/100 then i + 1 else i)"
    and j': "j' = (if en_amount ?d' < 1/100 then j + 1 else j)"
    and g': "g' = (if ?s > 1/100 then push_debt g (new_debt ?d ?c ?s cur) else g)"
    unfolding n prod.inject by (simp_all only:)
  have dc: "drop i' cs' = (if en_amount ?c' < 1/100 then drop (Suc i) cs else ?c' # drop (Suc i) cs)"
  proof (cases "en_amount ?c' < 1/100")
    case True
    then have "i' = Suc i" unfolding i' by (simp only: if_True Suc_eq_plus1)
    then show ?thesis using True by (simp only: cs' if_True drop_update_cancel lessI)
  next
    case False
    then have "i' = i" unfolding i' by (simp only: if_False)
    then show ?thesis using False i by (simp only: cs' if_False drop_update_here)
  qed
  have dd: "drop j' ds' = (if en_amount ?d' < 1/100 then drop (Suc j) ds else ?d' # drop (Suc j) ds)"
  proof (cases "en_amount ?d' < 1/100")
    case True
    then have "j' = Suc j" unfolding j' by (simp only: if_True Suc_eq_plus1)
    then show ?thesis using True by (simp only: ds' if_True drop_update_cancel lessI)
  next
    case False
    then have "j' = j" unfolding j' by (simp only: if_False)
    then show ?thesis using False j by (simp only: ds' if_False drop_update_here)
  qed
  have "settle_list (drop i cs) (drop j ds) = settle_list (?c # drop (Suc i) cs) (?d # drop (Suc j) ds)"
    using i j by (simp only: Cons_nth_drop_Suc)
  also have "\<dots> =
      (if ?s > 1/100
       then [(\<lparr>p_userId = en_userId ?d, p_username = en_username ?d\<rparr>,
              \<lparr>p_userId = en_userId ?c, p_username = en_username ?c\<rparr>, round2 ?s)]
       else []) @ settle_list (drop i' cs') (drop j' ds')"
    unfolding dc dd settle_list.simps(3) Let_def ..
  finally have unf: "settle_list (drop i cs) (drop j ds) =
      (if ?s > 1/100
       then [(\<lparr>p_userId = en_userId ?d, p_username = en_username ?d\<rparr>,
              \<lparr>p_userId = en_userId ?c, p_username = en_username ?c\<rparr>, round2 ?s)]
       else []) @ settle_list (drop i' cs') (drop j' ds')" .
  show ?thesis
  proof (cases "?s > 1/100")
    case True
    let ?n = "(new_debt ?d ?c ?s cur)\<lparr>d_id := oidCounter g\<rparr>"
    have g1: "g' = push_debt g (new_debt ?d ?c ?s cur)"
      unfolding g' using True by (simp only: if_True)
    have a: "simplifyDebt g' = simplifyDebt g @ [?n]"
      unfolding g1 by (simp add: push_debt_def)
    have t: "map debt_triple [?n] =
        [(\<lparr>p_userId = en_userId ?d, p_username = en_username ?d\<rparr>,
              \<lparr>p_userId = en_userId ?c, p_username = en_username ?c\<rparr>, round2 ?s)]"
      by (simp add: debt_triple_def new_debt_def)
    have u: "settle_list (drop i cs) (drop j ds) =
        [(\<lparr>p_userId = en_userId ?d, p_username = en_username ?d\<rparr>,
              \<lparr>p_userId = en_userId ?c, p_username = en_username ?c\<rparr>, round2 ?s)] @
        settle_list (drop i' cs') (drop j' ds')"
      using unf True by (simp only: if_True)
    show ?thesis
      by (rule exI [of _ "[?n]"], rule conjI, rule a, simp only: t, rule u)
  next
    case False
    have g1: "g' = g" unfolding g' using False by (simp only: if_False)
    have u: "settle_list (drop i cs) (drop j ds) =
        [] @ settle_list (drop i' cs') (drop j' ds')"
      using unf False by (simp only: if_False)
    show ?thesis
      by (rule exI [of _ "[]"], rule conjI, simp only: g1 append_Nil2, simp only: list.map, rule u)
  qed
qed

lemma sweep_settle_list:
  "\<exists>new. simplifyDebt (sweep cur cs ds i j g) = simplifyDebt g @ new \<and>
     map debt_triple new = settle_list (drop i cs) (drop j ds)"
proof (induction cur cs ds i j g rule: sweep_cases_induct)
  case (stop cur cs ds i j g)
  then have "settle_list (drop i cs) (drop j ds) = []"
    by (cases "drop i cs"; cases "drop j ds") auto
  then show ?case using stop by (simp add: sweep_done)
next
  case (step cur cs ds i j g cs' ds' i' j' g')
  from sweep_body_lists [OF step.hyps(3,1,2)] obtain n1 where n1:
    "simplifyDebt g' = simplifyDebt g @ n1"
    "settle_list (drop i cs) (drop j ds) = map debt_triple n1 @ settle_list (drop i' cs') (drop j' ds')"
    by blast
  from step.IH obtain n2 where n2:
    "simplifyDebt (sweep cur cs' ds' i' j' g') = simplifyDebt g' @ n2"
    "map debt_triple n2 = settle_list (drop i' cs') (drop j' ds')"
    by blast
  have "simplifyDebt (sweep cur cs ds i j g) = simplifyDebt g @ (n1 @ n2)"
    using sweep_step [OF step.hyps(1,2,3)] n1(1) n2(1) by simp
  moreover have "map debt_triple (n1 @ n2) = settle_list (drop i cs) (drop j ds)"
    using n1(2) n2(2) by simp
  ultimately show ?case by blast
qed

lemma settle_currency_triples:
  "\<exists>new. simplifyDebt (snd (settle_currency g cb)) = simplifyDebt g @ new \<and>
     (\<forall>d\<in>set new. d_currency d = fst cb) \<and>
     (fst (settle_currency g cb) = None \<longrightarrow>
        map debt_triple new =
          settle_list
            (sort_key (\<lambda>e. - en_amount e) (entries_of (members g) (creditor_balances (snd cb))))
            (sort_key (\<lambda>e. - en_amount e) (entries_of (members g) (debtor_balances (snd cb)))))"
proof -
  from settle_currency_appends [of g cb] obtain new where new:
    "simplifyDebt (snd (settle_currency g cb)) = simplifyDebt g @ new"
    "\<forall>d\<in>set new. d_currency d = fst cb"
    by blast
  have "map debt_triple new =
          settle_list
            (sort_key (\<lambda>e. - en_amount e) (entries_of (members g) (creditor_balances (snd cb))))
            (sort_key (\<lambda>e. - en_amount e) (entries_of (members g) (debtor_balances (snd cb))))"
    if ok: "fst (settle_currency g cb) = None"
  proof -
    from ok obtain cs ds where cs: "mk_entries (members g) (creditor_balances (snd cb)) = Some cs"
      and ds: "mk_entries (members g) (debtor_balances (snd cb)) = Some ds"
      by (auto simp: settle_currency_def split: option.splits)
    let ?cs = "sort_key (\<lambda>e. - en_amount e) cs" and ?ds = "sort_key (\<lambda>e. - en_amount e) ds"
    from sweep_settle_list [of "fst cb" ?cs ?ds 0 0 g] obtain n where n:
      "simplifyDebt (sweep (fst cb) ?cs ?ds 0 0 g) = simplifyDebt g @ n"
      "map debt_triple n = settle_list ?cs ?ds"
      by auto
    from cs ds n(1) new(1) have "n = new" by (simp add: settle_currency_def)
    with n(2) mk_entries_entries_of [OF cs] mk_entries_entries_of [OF ds] show ?thesis by simp
  qed
  with new show ?thesis by (intro exI [of _ new]) simp
qed

lemma settle_all_triples:
  assumes "distinct (map fst dbc)" "fst (settle_all dbc g) = None"
  shows "\<exists>new. simplifyDebt (snd (settle_all dbc g)) = simplifyDebt g @ new \<and>
     (\<forall>c. map debt_triple (filter (\<lambda>d. d_currency d = c) new) =
        (case map_of dbc c of None \<Rightarrow> []
         | Some bal \<Rightarrow>
             settle_list
               (sort_key (\<lambda>e. - en_amount e) (entries_of (members g) (creditor_balances bal)))
               (sort_key (\<lambda>e. - en_amount e) (entries_of (members g) (debtor_balances bal)))))"
  using assms
proof (induction dbc arbitrary: g)
  case Nil
  then show ?case by simp
next
  case (Cons cb dbc)
  obtain e g' where r: "settle_currency g cb = (e, g')" by (cases "settle_currency g cb")
  with Cons.prems(2) have e: "e = None" by (cases e) auto
  with r Cons.prems(2) have rest: "fst (settle_all dbc g') = None" by simp
  from r have m: "members g' = members g"
    using settle_currency_members [of g cb] by simp
  from Cons.prems(1) have dist: "distinct (map fst dbc)" and fresh: "fst cb \<notin> set (map fst dbc)"
    by simp_all
  from settle_currency_triples [of g cb] r e obtain n1 where n1:
    "simplifyDebt g' = simplifyDebt g @ n1"
    "\<forall>d\<in>set n1. d_currency d = fst cb"
    "map debt_triple n1 =
       settle_list
         (sort_key (\<lambda>e. - en_amount e) (entries_of (members g) (creditor_balances (snd cb))))
         (sort_key (\<lambda>e. - en_amount e) (entries_of (members g) (debtor_balances (snd cb))))"
    by auto
  from Cons.IH [OF dist rest] obtain n2 where n2:
    "simplifyDebt (snd (settle_all dbc g')) = simplifyDebt g' @ n2"
    "\<And>c. map debt_triple (filter (\<lambda>d. d_currency d = c) n2) =
        (case map_of dbc c of None \<Rightarrow> []
         | Some bal \<Rightarrow>
             settle_list
               (sort_key (\<lambda>e. - en_amount e) (entries_of (members g') (creditor_balances bal)))
               (sort_key (\<lambda>e. - en_amount e) (entries_of (members g') (debtor_balances bal))))"
    by blast
  have "map debt_triple (filter (\<lambda>d. d_currency d = c) (n1 @ n2)) =
        (case map_of (cb # dbc) c of None \<Rightarrow> []
         | Some bal \<Rightarrow>
             settle_list
               (sort_key (\<lambda>e. - en_amount e) (entries_of (members g) (creditor_balances bal)))
               (sort_key (\<lambda>e. - en_amount e) (entries_of (members g) (debtor_balances bal))))" for c
  proof (cases "c = fst cb")
    case True
    with fresh have "map_of dbc c = None" by (simp add: map_of_eq_None_iff)
    with n2(2) [of c] have "filter (\<lambda>d. d_currency d = c) n2 = []" by simp
    moreover from n1(2) True have "filter (\<lambda>d. d_currency d = c) n1 = n1"
      by (simp add: filter_id_conv)
    moreover have "map_of (cb # dbc) c = Some (snd cb)"
      using True by (cases cb) simp
    ultimately show ?thesis using n1(3) by simp
  next
    case False
    with n1(2) have "filter (\<lambda>d. d_currency d = c) n1 = []"
      by (auto simp: filter_empty_conv)
    moreover have "map_of (cb # dbc) c = map_of dbc c"
      using False by (cases cb) simp
    ultimately show ?thesis using n2(2) [of c] m by (simp cong: option.case_cong)
  qed
  moreover have "simplifyDebt (snd (settle_all (cb # dbc) g)) = simplifyDebt g @ (n1 @ n2)"
    using r e n1(1) n2(1) by simp
  ultimately show ?case by blast
qed

lemma calculateDebts_rebuilds:
  "map debt_triple (debts_in (snd (calculateDebts g)) c) = rebuilt_triples g c"
proof -
  let ?g0 = "g\<lparr>simplifyDebt := []\<rparr>"
  have d: "distinct (map fst (all_balances g))"
    using tables_ok_all_balances [of g] by (simp add: tables_ok_def)
  have ok: "fst (settle_all (all_balances g) ?g0) = None"
    using calculateDebts_no_error [of g] by (simp add: calculateDebts_unfold)
  from settle_all_triples [OF d ok]
  have "map debt_triple (debts_in (snd (calculateDebts g)) c) =
        (case map_of (all_balances g) c of None \<Rightarrow> []
         | Some bal \<Rightarrow>
             settle_list
               (sort_key (\<lambda>e. - en_amount e) (entries_of (members g) (creditor_balances bal)))
               (sort_key (\<lambda>e. - en_amount e) (entries_of (members g) (debtor_balances bal))))"
    by (auto simp: calculateDebts_unfold debts_in_def cong: option.case_cong)
  also have "\<dots> = settle_list
         (sort_key (\<lambda>e. - en_amount e) (entries_of (members g) (creditor_balances (balances_in g c))))
         (sort_key (\<lambda>e. - en_amount e) (entries_of (members g) (debtor_balances (balances_in g c))))"
    by (simp add: balances_in_def creditor_balances_def debtor_balances_def entries_of_def
             split: option.splits)
  finally show ?thesis
    by (simp add: rebuilt_triples_def Let_def balances_in_ledger)
qed

section \<open>Membership manager\<close>

text \<open>
  Claim C7. \<open>addMember\<close> keeps at most one membership record per user. On a group
  where no two records have the same user: the records still have distinct users after
  the call; the call fails with \<open>AlreadyMember\<close> and leaves the group as it was when
  the user has an active record; when the user has an inactive record, the call succeeds,
  that record becomes active with \<open>joinedAt\<close> refreshed and no record is appended;
  when the user has no record and the active member count has reached \<open>maxMembers\<close>,
  the call fails with \<open>CapacityExceeded\<close>; otherwise a new active record is appended,
  with role \<open>member\<close> when no role is given.
\<close>

theorem addMember_one_record_per_user:
  assumes inv: "distinct (map m_userId (members g))"
  shows "distinct (map m_userId (members (snd (addMember g u n r now)))) \<and>
    ((\<exists>m\<in>set (members g). m_userId m = u \<and> m_isActive m) \<longrightarrow>
        addMember g u n r now = (Some AlreadyMember, g)) \<and>
    ((\<exists>m\<in>set (members g). m_userId m = u \<and> \<not> m_isActive m) \<longrightarrow>
        fst (addMember g u n r now) = None \<and>
        members (snd (addMember g u n r now)) =
          map (\<lambda>m. if m_userId m = u then m\<lparr>m_joinedAt := now, m_isActive := True\<rparr> else m) (members g)) \<and>
    (u \<notin> set (map m_userId (members g)) \<and> maxMembers g \<le> memberCount g \<longrightarrow>
        addMember g u n r now = (Some CapacityExceeded, g)) \<and>
    (u \<notin> set (map m_userId (members g)) \<and> memberCount g < maxMembers g \<longrightarrow>
        fst (addMember g u n r now) = None \<and>
        members (snd (addMember g u n r now)) = members g @
          [\<lparr>m_userId = u, m_username = n, m_joinedAt = now,
            m_role = (case r of None \<Rightarrow> Member | Some x \<Rightarrow> x), m_isActive = True\<rparr>])"
proof -
  have preserved: "distinct (map m_userId (members (snd (addMember g u n r now))))"
    using inv
    by (auto simp: addMember_def map_userId_update_first find_userId_None
             split: option.splits)
  have active: "addMember g u n r now = (Some AlreadyMember, g)"
    if "m \<in> set (members g)" "m_userId m = u" "m_isActive m" for m
    using find_distinct [OF inv that(1)] that by (simp add: addMember_def)
  have inactive: "fst (addMember g u n r now) = None \<and>
        members (snd (addMember g u n r now)) =
          map (\<lambda>m. if m_userId m = u then m\<lparr>m_joinedAt := now, m_isActive := True\<rparr> else m) (members g)"
    if "m \<in> set (members g)" "m_userId m = u" "\<not> m_isActive m" for m
    using find_distinct [OF inv that(1)] that
    by (simp add: addMember_def update_first_distinct [OF inv])
  have full: "addMember g u n r now = (Some CapacityExceeded, g)"
    if "u \<notin> set (map m_userId (members g))" "maxMembers g \<le> memberCount g"
    using that find_userId_None [of u "members g"] by (simp add: addMember_def)
  have fresh: "fst (addMember g u n r now) = None \<and>
        members (snd (addMember g u n r now)) = members g @
          [\<lparr>m_userId = u, m_username = n, m_joinedAt = now,
            m_role = (case r of None \<Rightarrow> Member | Some x \<Rightarrow> x), m_isActive = True\<rparr>]"
    if "u \<notin> set (map m_userId (members g))" "memberCount g < maxMembers g"
    using that find_userId_None [of u "members g"] by (simp add: addMember_def)
  show ?thesis
  proof (intro conjI impI)
    show "distinct (map m_userId (members (snd (addMember g u n r now))))"
      by (rule preserved)
  next
    assume "\<exists>m\<in>set (members g). m_userId m = u \<and> m_isActive m"
    then show "addMember g u n r now = (Some AlreadyMember, g)"
      using active by blast
  next
    assume "\<exists>m\<in>set (members g). m_userId m = u \<and> \<not> m_isActive m"
    then obtain m where "m \<in> set (members g)" "m_userId m = u" "\<not> m_isActive m"
      by blast
    from inactive [OF this]
    show "fst (addMember g u n r now) = None"
      and "members (snd (addMember g u n r now)) =
          map (\<lambda>m. if m_userId m = u then m\<lparr>m_joinedAt := now, m_isActive := True\<rparr> else m) (members g)"
      by simp_all
  next
    assume "u \<notin> set (map m_userId (members g)) \<and> maxMembers g \<le> memberCount g"
    then show "addMember g u n r now = (Some CapacityExceeded, g)"
      using full by blast
  next
    assume a: "u \<notin> set (map m_userId (members g)) \<and> memberCount g < maxMembers g"
    from a fresh show "fst (addMember g u n r now) = None"
      by blast
    from a fresh show "members (snd (addMember g u n r now)) = members g @
          [\<lparr>m_userId = u, m_username = n, m_joinedAt = now,
            m_role = (case r of None \<Rightarrow> Member | Some x \<Rightarrow> x), m_isActive = True\<rparr>]"
      by blast
  qed
qed

theorem addMember_one_record_per_user_witness:
  "addMember trio 1 ''A'' None 5 = (Some AlreadyMember, trio) \<and>
   members (snd (addMember trio_c_left 3 ''C'' None 5)) =
     [mk_member 1 ''A'' Admin True, mk_member 2 ''B'' Member True,
      (mk_member 3 ''C'' Member True)\<lparr>m_joinedAt := 5\<rparr>] \<and>
   addMember (trio\<lparr>maxMembers := 3\<rparr>) 4 ''D'' None 5 = (Some CapacityExceeded, trio\<lparr>maxMembers := 3\<rparr>) \<and>
   members (snd (addMember trio 4 ''D'' None 5)) =
     members trio @ [(mk_member 4 ''D'' Member True)\<lparr>m_joinedAt := 5\<rparr>]"
  using addMember_one_record_per_user [of trio 1 "''A''" None 5]
        addMember_one_record_per_user [of trio_c_left 3 "''C''" None 5]
        addMember_one_record_per_user [of "trio\<lparr>maxMembers := 3\<rparr>" 4 "''D''" None 5]
        addMember_one_record_per_user [of trio 4 "''D''" None 5]
  by (simp add: trio_def trio_c_left_def mk_member_def memberCount_def)

text \<open>
  What \<open>removeMember\<close> does, case by case: it fails with \<open>NotAMember\<close> when the
  user has no membership record at all, active or not; when a record exists, it fails with
  \<open>OutstandingDebt\<close> whenever a pending debt names the user as either party, in any
  currency; otherwise it succeeds, setting \<open>isActive\<close> to false on the user's first
  record and deleting no record. Failures leave the group as it was.
\<close>

lemma removeMember_cases:
  "(u \<notin> set (map m_userId (members g)) \<longrightarrow> removeMember g u = (Some NotAMember, g)) \<and>
   (u \<in> set (map m_userId (members g)) \<and> hasDebts g u \<longrightarrow>
      removeMember g u = (Some OutstandingDebt, g)) \<and>
   (u \<in> set (map m_userId (members g)) \<and> \<not> hasDebts g u \<longrightarrow>
      fst (removeMember g u) = None \<and>
      members (snd (removeMember g u)) =
        update_first (\<lambda>m. m_userId m = u) (\<lambda>m. m\<lparr>m_isActive := False\<rparr>) (members g) \<and>
      map m_userId (members (snd (removeMember g u))) = map m_userId (members g))"
proof -
  have "find (\<lambda>m. m_userId m = u) (members g) \<noteq> None" if "u \<in> set (map m_userId (members g))"
    using that find_userId_None [of u "members g"] by simp
  then show ?thesis
    using find_userId_None [of u "members g"]
    by (auto simp: removeMember_def map_userId_update_first split: option.splits)
qed

lemma removeMember_cases_example:
  "removeMember trio 9 = (Some NotAMember, trio) \<and>
   removeMember (trio\<lparr>simplifyDebt := [c_owes_a]\<rparr>) 3 =
     (Some OutstandingDebt, trio\<lparr>simplifyDebt := [c_owes_a]\<rparr>) \<and>
   fst (removeMember (trio\<lparr>simplifyDebt := [c_owes_a\<lparr>d_status := Settled\<rparr>]\<rparr>) 3) = None \<and>
   members (snd (removeMember (trio\<lparr>simplifyDebt := [c_owes_a\<lparr>d_status := Settled\<rparr>]\<rparr>) 3)) =
     members trio_c_left"
  using removeMember_cases [of 9 trio]
        removeMember_cases [of 3 "trio\<lparr>simplifyDebt := [c_owes_a]\<rparr>"]
        removeMember_cases [of 3 "trio\<lparr>simplifyDebt := [c_owes_a\<lparr>d_status := Settled\<rparr>]\<rparr>"]
  by (simp add: trio_def trio_c_left_def mk_member_def hasDebts_def c_owes_a_def)

text \<open>
  Claim C6 says that \<open>removeMember\<close> fails with \<open>NotAMember\<close> when the user has no
  active membership, fails with \<open>OutstandingDebt\<close> when a pending debt names the user,
  and otherwise marks the membership inactive without deleting it. The last two parts
  hold (\<open>removeMember_cases\<close>). The first does not: the lookup is by user id alone,
  so a user whose only record is inactive passes it. Below, C has left the group and has
  no pending debt; removing C again does not fail, and the group is as it was.
\<close>

theorem removeMember_inactive_succeeds:
  "filter (\<lambda>m. m_userId m = 3 \<and> m_isActive m) (members trio_c_left) = [] \<and>
   removeMember trio_c_left 3 = (None, trio_c_left)"
  by (simp add: removeMember_def hasDebts_def save_def trio_c_left_def trio_def mk_member_def)

section \<open>Expense ledger\<close>



text \<open>
  Claim C10. Only the split participants are checked against the active members: with an
  allowed currency, a participant who is not an active member makes the call fail with
  \<open>InvalidSplitParticipant\<close>. The payer is never checked: the outcome of the call is
  the same for every payer, and when the three checks pass the call succeeds and the
  expense is in the ledger, whoever the payer is.
\<close>

theorem addExpense_payer_unchecked:
  "fst (addExpense g de a cur p pn sb cat ru no now) =
   fst (addExpense g de a cur p' pn' sb cat ru no now) \<and>
   ((allowMultipleCurrencies g \<or> cur = defaultCurrency g) \<and>
    (\<exists>s\<in>set sb. s_userId s \<notin> set (activeMemberIds g)) \<longrightarrow>
      fst (addExpense g de a cur p pn sb cat ru no now) = Some InvalidSplitParticipant) \<and>
   ((allowMultipleCurrencies g \<or> cur = defaultCurrency g) \<and>
    (\<forall>s\<in>set sb. s_userId s \<in> set (activeMemberIds g)) \<and>
    \<bar>totalSplit sb - a\<bar> \<le> 1/100 \<longrightarrow>
      fst (addExpense g de a cur p pn sb cat ru no now) = None \<and>
      new_expense de a cur p pn sb cat ru no now
        \<in> set (billSplit (snd (addExpense g de a cur p pn sb cat ru no now))))"
proof (intro conjI impI)
  show "fst (addExpense g de a cur p pn sb cat ru no now) =
        fst (addExpense g de a cur p' pn' sb cat ru no now)"
    by (simp only: addExpense_fst)
next
  assume "(allowMultipleCurrencies g \<or> cur = defaultCurrency g) \<and>
    (\<exists>s\<in>set sb. s_userId s \<notin> set (activeMemberIds g))"
  then show "fst (addExpense g de a cur p pn sb cat ru no now) = Some InvalidSplitParticipant"
    by (auto simp: addExpense_fst)
next
  assume h: "(allowMultipleCurrencies g \<or> cur = defaultCurrency g) \<and>
    (\<forall>s\<in>set sb. s_userId s \<in> set (activeMemberIds g)) \<and>
    \<bar>totalSplit sb - a\<bar> \<le> 1/100"
  then show ok: "fst (addExpense g de a cur p pn sb cat ru no now) = None"
    by (auto simp: addExpense_fst)
  from addExpense_accepted(1) [OF ok]
  show "new_expense de a cur p pn sb cat ru no now
        \<in> set (billSplit (snd (addExpense g de a cur p pn sb cat ru no now)))"
    by simp
qed

text \<open>A payer who has no membership record in the group: the expense is accepted.\<close>

theorem addExpense_payer_unchecked_witness:
  "9 \<notin> set (map m_userId (members trio)) \<and>
   fst (addExpense trio ''dinner'' 300 IDR 9 ''X''
          [mk_split 1 ''A'' 100, mk_split 2 ''B'' 100, mk_split 3 ''C'' 100]
          None None None 10) = None \<and>
   new_expense ''dinner'' 300 IDR 9 ''X''
          [mk_split 1 ''A'' 100, mk_split 2 ''B'' 100, mk_split 3 ''C'' 100]
          None None None 10
     \<in> set (billSplit (snd (addExpense trio ''dinner'' 300 IDR 9 ''X''
          [mk_split 1 ''A'' 100, mk_split 2 ''B'' 100, mk_split 3 ''C'' 100]
          None None None 10))) \<and>
   fst (addExpense trio ''dinner'' 300 IDR 1 ''A''
          [mk_split 1 ''A'' 100, mk_split 2 ''B'' 100, mk_split 8 ''Y'' 100]
          None None None 10) = Some InvalidSplitParticipant"
  using addExpense_payer_unchecked [of trio "''dinner''" 300 IDR 9 "''X''"
          "[mk_split 1 ''A'' 100, mk_split 2 ''B'' 100, mk_split 3 ''C'' 100]"
          None None None 10 9 "''X''"]
        addExpense_payer_unchecked [of trio "''dinner''" 300 IDR 1 "''A''"
          "[mk_split 1 ''A'' 100, mk_split 2 ''B'' 100, mk_split 8 ''Y'' 100]"
          None None None 10 1 "''A''"]
  by (simp add: totalSplit_def mk_split_def trio_def activeMemberIds_def mk_member_def)




section \<open>Debt simplifier\<close>

lemma calculateDebts_appends:
  "\<exists>new. simplifyDebt (snd (calculateDebts g)) = new \<and>
     (\<forall>c. length (filter (\<lambda>d. d_currency d = c) new) \<le>
        (case map_of (all_balances g) c of None \<Rightarrow> 0
         | Some bal \<Rightarrow> length (creditor_balances bal) + length (debtor_balances bal) - 1)) \<and>
     (\<forall>d\<in>set new. fresh_debt d \<and>
        (\<exists>bal. (d_currency d, bal) \<in> set (all_balances g) \<and>
           p_userId (d_from d) \<in> set (map fst (debtor_balances bal)) \<and>
           p_userId (d_to d) \<in> set (map fst (creditor_balances bal))))"
proof -
  let ?g0 = "g\<lparr>simplifyDebt := []\<rparr>"
  have eq: "all_balances ?g0 = all_balances g"
    by (rule all_balances_cong) simp_all
  have "distinct (map fst (all_balances g))"
    using tables_ok_all_balances [of g] by (simp add: tables_ok_def)
  from settle_all_appends [OF this, of ?g0]
  show ?thesis by (simp add: calculateDebts_def Let_def eq)
qed

text \<open>
  Claim C1. A run of \<open>calculateDebts\<close> completes, and for every currency the number of
  debts it emits in that currency is at most the number of members whose balance in that
  currency has magnitude above 0.01, minus one; when no balance is above the tolerance,
  no debt is emitted in that currency.
\<close>

theorem calculateDebts_settlement_bound:
  "fst (calculateDebts g) = None \<and>
   length (debts_in (snd (calculateDebts g)) c) \<le> nonzero_members g c - 1 \<and>
   (nonzero_members g c = 0 \<longrightarrow> debts_in (snd (calculateDebts g)) c = [])"
proof -
  from calculateDebts_appends [of g]
  have "length (debts_in (snd (calculateDebts g)) c) \<le>
        (case map_of (all_balances g) c of None \<Rightarrow> 0
         | Some bal \<Rightarrow> length (creditor_balances bal) + length (debtor_balances bal) - 1)"
    by (simp add: debts_in_def)
  also have "\<dots> \<le> nonzero_members g c - 1"
    by (simp add: nonzero_members_def balances_in_def tolerance_count split: option.splits)
  finally have b: "length (debts_in (snd (calculateDebts g)) c) \<le> nonzero_members g c - 1" .
  then have "nonzero_members g c = 0 \<longrightarrow> debts_in (snd (calculateDebts g)) c = []"
    by auto
  with b calculateDebts_no_error [of g] show ?thesis by simp
qed

theorem calculateDebts_settlement_bound_witness:
  "nonzero_members after_dinner IDR = 3 \<and>
   length (debts_in (snd (calculateDebts after_dinner)) IDR) \<le> 2 \<and>
   nonzero_members settled_up IDR = 0 \<and>
   debts_in (snd (calculateDebts settled_up)) IDR = []"
proof -
  have a: "nonzero_members after_dinner IDR = 3" by code_simp
  have b: "nonzero_members settled_up IDR = 0" by code_simp
  from a b calculateDebts_settlement_bound [of after_dinner IDR]
    calculateDebts_settlement_bound [of settled_up IDR]
  show ?thesis by simp
qed

lemma update_first_find:
  "find P xs = Some x \<Longrightarrow> f x \<in> set (update_first P f xs)"
  by (induction xs) (auto split: if_splits)

text \<open>
  Claim C4. A run of \<open>calculateDebts\<close> does not depend on the debt list it finds: the
  list is discarded, whatever the status of its debts. What the run leaves is rebuilt
  from the whole ledger, currency by currency: the debts of a currency are, in order and
  with their parties and amounts, the greedy settlement of the balances obtained from
  all the expenses of that currency, and each of them is pending with no settlement
  data. A recalculation request stores the list of such a run. With
  \<open>autoSimplifyDebts\<close> enabled an accepted \<open>addExpense\<close> leaves the list rebuilt from
  the ledger with the new expense. So after a debt has been settled (the list then holds
  a settled debt), one more accepted expense leaves no settled debt in the list: the
  list is the settlement of the ledger with the new expense.
\<close>

theorem calculateDebts_discards_debts:
  "calculateDebts (g\<lparr>simplifyDebt := ds\<rparr>) = calculateDebts (g\<lparr>simplifyDebt := []\<rparr>) \<and>
   map debt_triple (debts_in (snd (calculateDebts g)) c) = rebuilt_triples g c \<and>
   simplifyDebt (snd (calculateGroupDebts g)) = simplifyDebt (snd (calculateDebts g)) \<and>
   (\<forall>d\<in>set (simplifyDebt (snd (calculateDebts g))). fresh_debt d) \<and>
   (autoSimplifyDebts g \<and> fst (addExpense g de a cur p pn sb cat ru no now) = None \<longrightarrow>
      simplifyDebt (snd (addExpense g de a cur p pn sb cat ru no now)) =
      simplifyDebt (snd (calculateDebts
        (g\<lparr>billSplit := billSplit g @ [new_expense de a cur p pn sb cat ru no now]\<rparr>)))) \<and>
   (fst (settleDebt g i who t) = None \<longrightarrow>
      (\<exists>d\<in>set (simplifyDebt (snd (settleDebt g i who t))).
         d_id d = i \<and> d_status d = Settled \<and> d_settledBy d = Some who)) \<and>
   (fst (settleDebt g i who t) = None \<and> autoSimplifyDebts g \<and>
    fst (addExpense (snd (settleDebt g i who t)) de a cur p pn sb cat ru no now) = None \<longrightarrow>
      (\<forall>d\<in>set (simplifyDebt
                 (snd (addExpense (snd (settleDebt g i who t)) de a cur p pn sb cat ru no now))).
         fresh_debt d) \<and>
      map debt_triple
        (debts_in (snd (addExpense (snd (settleDebt g i who t)) de a cur p pn sb cat ru no now)) c) =
      rebuilt_triples
        ((snd (settleDebt g i who t))\<lparr>billSplit := billSplit (snd (settleDebt g i who t)) @
            [new_expense de a cur p pn sb cat ru no now]\<rparr>) c)"
proof (intro conjI impI)
  show "calculateDebts (g\<lparr>simplifyDebt := ds\<rparr>) = calculateDebts (g\<lparr>simplifyDebt := []\<rparr>)"
    by (simp add: calculateDebts_def)
next
  show "map debt_triple (debts_in (snd (calculateDebts g)) c) = rebuilt_triples g c"
    by (rule calculateDebts_rebuilds)
next
  show "simplifyDebt (snd (calculateGroupDebts g)) = simplifyDebt (snd (calculateDebts g))"
    using calculateDebts_no_error [of g]
    by (cases "calculateDebts g") (auto simp: calculateGroupDebts_def)
next
  show "\<forall>d\<in>set (simplifyDebt (snd (calculateDebts g))). fresh_debt d"
    using calculateDebts_appends [of g] by blast
next
  assume "autoSimplifyDebts g \<and> fst (addExpense g de a cur p pn sb cat ru no now) = None"
  then show "simplifyDebt (snd (addExpense g de a cur p pn sb cat ru no now)) =
      simplifyDebt (snd (calculateDebts
        (g\<lparr>billSplit := billSplit g @ [new_expense de a cur p pn sb cat ru no now]\<rparr>)))"
    using addExpense_accepted(2) [of g de a cur p pn sb cat ru no now] by simp
next
  assume ok: "fst (settleDebt g i who t) = None"
  then obtain d where d: "find (\<lambda>d. d_id d = i) (simplifyDebt g) = Some d" "d_status d = Pending"
    by (auto simp: settleDebt_def split: option.splits if_splits)
  then have i: "d_id d = i" by (auto simp: find_Some_iff)
  let ?d = "d\<lparr>d_status := Settled, d_settledAt := Some t, d_settledBy := Some who\<rparr>"
  from d update_first_find [OF d(1),
      of "\<lambda>d. d\<lparr>d_status := Settled, d_settledAt := Some t, d_settledBy := Some who\<rparr>"]
  have mem: "?d \<in> set (simplifyDebt (snd (settleDebt g i who t)))"
    by (simp add: settleDebt_def)
  show "\<exists>d\<in>set (simplifyDebt (snd (settleDebt g i who t))).
         d_id d = i \<and> d_status d = Settled \<and> d_settledBy d = Some who"
    by (rule bexI [OF _ mem]) (simp add: i)
next
  assume h: "fst (settleDebt g i who t) = None \<and> autoSimplifyDebts g \<and>
    fst (addExpense (snd (settleDebt g i who t)) de a cur p pn sb cat ru no now) = None"
  let ?g = "snd (settleDebt g i who t)"
  let ?g1 = "?g\<lparr>billSplit := billSplit ?g @ [new_expense de a cur p pn sb cat ru no now]\<rparr>"
  from h have "autoSimplifyDebts ?g"
    by (auto simp: settleDebt_def save_def split: option.splits if_splits)
  with h addExpense_accepted(2) [of ?g de a cur p pn sb cat ru no now]
  have e: "simplifyDebt (snd (addExpense ?g de a cur p pn sb cat ru no now)) =
      simplifyDebt (snd (calculateDebts ?g1))"
    by simp
  then show "\<forall>d\<in>set (simplifyDebt (snd (addExpense ?g de a cur p pn sb cat ru no now))).
         fresh_debt d"
    using calculateDebts_appends by metis
  from e have "debts_in (snd (addExpense ?g de a cur p pn sb cat ru no now)) c =
      debts_in (snd (calculateDebts ?g1)) c"
    by (simp add: debts_in_def)
  then show "map debt_triple (debts_in (snd (addExpense ?g de a cur p pn sb cat ru no now)) c) =
      rebuilt_triples ?g1 c"
    by (simp only: calculateDebts_rebuilds)
qed

text \<open>
  After the first scenario C settles the debt to A; B then pays 60 for the three. The
  list that held a pending and a settled debt of 100 each is replaced by what the two
  expenses give: C owes A 120 and B owes A 60, both pending. A list that holds a disputed
  debt is discarded in the same way.
\<close>

theorem calculateDebts_discards_debts_witness:
  "map (\<lambda>d. (debt_triple d, d_status d)) (simplifyDebt (snd (settleDebt after_dinner 1 3 20))) =
     [((\<lparr>p_userId = 2, p_username = ''B''\<rparr>, \<lparr>p_userId = 1, p_username = ''A''\<rparr>, 100), Pending),
      ((\<lparr>p_userId = 3, p_username = ''C''\<rparr>, \<lparr>p_userId = 1, p_username = ''A''\<rparr>, 100), Settled)] \<and>
   fst (settleDebt after_dinner 1 3 20) = None \<and>
   fst (addExpense (snd (settleDebt after_dinner 1 3 20))
          ''lunch'' 60 IDR 2 ''B'' lunch_split None None None 30) = None \<and>
   list_all fresh_debt
     (simplifyDebt (snd (addExpense (snd (settleDebt after_dinner 1 3 20))
          ''lunch'' 60 IDR 2 ''B'' lunch_split None None None 30))) \<and>
   map debt_triple
     (debts_in (snd (addExpense (snd (settleDebt after_dinner 1 3 20))
          ''lunch'' 60 IDR 2 ''B'' lunch_split None None None 30)) IDR) =
     [(\<lparr>p_userId = 3, p_username = ''C''\<rparr>, \<lparr>p_userId = 1, p_username = ''A''\<rparr>, 120),
      (\<lparr>p_userId = 2, p_username = ''B''\<rparr>, \<lparr>p_userId = 1, p_username = ''A''\<rparr>, 60)] \<and>
   length (simplifyDebt (snd (addExpense (snd (settleDebt after_dinner 1 3 20))
          ''lunch'' 60 IDR 2 ''B'' lunch_split None None None 30))) = 2 \<and>
   calculateDebts (after_dinner\<lparr>simplifyDebt := [c_owes_a\<lparr>d_status := Disputed\<rparr>]\<rparr>) =
     calculateDebts (after_dinner\<lparr>simplifyDebt := []\<rparr>) \<and>
   map debt_triple (debts_in (snd (calculateDebts after_dinner)) IDR) =
     [(\<lparr>p_userId = 2, p_username = ''B''\<rparr>, \<lparr>p_userId = 1, p_username = ''A''\<rparr>, 100),
      (\<lparr>p_userId = 3, p_username = ''C''\<rparr>, \<lparr>p_userId = 1, p_username = ''A''\<rparr>, 100)]"
proof -
  let ?g = "snd (settleDebt after_dinner 1 3 20)"
  let ?g1 = "?g\<lparr>billSplit := billSplit ?g @
               [new_expense ''lunch'' 60 IDR 2 ''B'' lunch_split None None None 30]\<rparr>"
  have s: "fst (settleDebt after_dinner 1 3 20) = None" by code_simp
  have a: "autoSimplifyDebts after_dinner" by code_simp
  have e: "fst (addExpense ?g ''lunch'' 60 IDR 2 ''B'' lunch_split None None None 30) = None"
    by code_simp
  have m: "map (\<lambda>d. (debt_triple d, d_status d)) (simplifyDebt ?g) =
     [((\<lparr>p_userId = 2, p_username = ''B''\<rparr>, \<lparr>p_userId = 1, p_username = ''A''\<rparr>, 100), Pending),
      ((\<lparr>p_userId = 3, p_username = ''C''\<rparr>, \<lparr>p_userId = 1, p_username = ''A''\<rparr>, 100), Settled)]"
    by code_simp
  have l: "length (simplifyDebt (snd (addExpense ?g
          ''lunch'' 60 IDR 2 ''B'' lunch_split None None None 30))) = 2" by code_simp
  have r: "rebuilt_triples ?g1 IDR =
     [(\<lparr>p_userId = 3, p_username = ''C''\<rparr>, \<lparr>p_userId = 1, p_username = ''A''\<rparr>, 120),
      (\<lparr>p_userId = 2, p_username = ''B''\<rparr>, \<lparr>p_userId = 1, p_username = ''A''\<rparr>, 60)]"
    by code_simp
  have r0: "rebuilt_triples after_dinner IDR =
     [(\<lparr>p_userId = 2, p_username = ''B''\<rparr>, \<lparr>p_userId = 1, p_username = ''A''\<rparr>, 100),
      (\<lparr>p_userId = 3, p_username = ''C''\<rparr>, \<lparr>p_userId = 1, p_username = ''A''\<rparr>, 100)]"
    by code_simp
  note inst = calculateDebts_discards_debts [where g = after_dinner
      and ds = "[c_owes_a\<lparr>d_status := Disputed\<rparr>]" and c = IDR and de = "''lunch''"
      and a = 60 and cur = IDR and p = 2 and pn = "''B''" and sb = lunch_split and cat = None
      and ru = None and no = None and now = 30 and i = 1 and who = 3 and t = 20]
  from inst s a e
  have f: "\<forall>d\<in>set (simplifyDebt (snd (addExpense ?g
          ''lunch'' 60 IDR 2 ''B'' lunch_split None None None 30))). fresh_debt d"
    by blast
  from inst s a e
  have t: "map debt_triple (debts_in (snd (addExpense ?g
          ''lunch'' 60 IDR 2 ''B'' lunch_split None None None 30)) IDR) = rebuilt_triples ?g1 IDR"
    by blast
  from inst have d: "calculateDebts (after_dinner\<lparr>simplifyDebt := [c_owes_a\<lparr>d_status := Disputed\<rparr>]\<rparr>) =
     calculateDebts (after_dinner\<lparr>simplifyDebt := []\<rparr>)"
    by blast
  from inst have t0: "map debt_triple (debts_in (snd (calculateDebts after_dinner)) IDR) =
      rebuilt_triples after_dinner IDR"
    by blast
  from s e m l f d show ?thesis
    unfolding t t0 r r0 by (simp add: list_all_iff)
qed

subsection \<open>Recomputation does not depend on the ids the debts get\<close>

lemma sweep_body_group:
  "sweep_body cur cs ds i j g =
     (case sweep_body cur cs ds i j h of
        (cs', ds', i', j', h') \<Rightarrow>
          (cs', ds', i', j',
           if min (en_amount (cs ! i)) (en_amount (ds ! j)) > 1/100
           then push_debt g (new_debt (ds ! j) (cs ! i)
                  (min (en_amount (cs ! i)) (en_amount (ds ! j))) cur)
           else g))"
  unfolding sweep_body_def Let_def prod.case by (rule refl)

lemma sweep_body_same:
  assumes "sweep_body cur cs ds i j g = (cs', ds', i', j', g')"
    and "sweep_body cur cs ds i j h = (cs'', ds'', i'', j'', h')"
  shows "cs'' = cs' \<and> ds'' = ds' \<and> i'' = i' \<and> j'' = j' \<and>
     (map strip_id (simplifyDebt g) = map strip_id (simplifyDebt h) \<longrightarrow>
      map strip_id (simplifyDebt g') = map strip_id (simplifyDebt h'))"
proof -
  let ?s = "min (en_amount (cs ! i)) (en_amount (ds ! j))"
  let ?d = "new_debt (ds ! j) (cs ! i) ?s cur"
  from sweep_body_group [of cur cs ds i j g h] assms
  have g: "cs'' = cs'" "ds'' = ds'" "i'' = i'" "j'' = j'"
    "g' = (if ?s > 1/100 then push_debt g ?d else g)"
    by simp_all
  from sweep_body_group [of cur cs ds i j h h] assms(2)
  have h: "h' = (if ?s > 1/100 then push_debt h ?d else h)"
    by simp
  have "map strip_id (simplifyDebt g') = map strip_id (simplifyDebt h')"
    if "map strip_id (simplifyDebt g) = map strip_id (simplifyDebt h)"
    using that unfolding g(5) h by (simp add: push_debt_def strip_id_def)
  with g(1-4) show ?thesis by simp
qed

lemma sweep_same:
  "map strip_id (simplifyDebt g) = map strip_id (simplifyDebt h) \<Longrightarrow>
   map strip_id (simplifyDebt (sweep cur cs ds i j g)) =
   map strip_id (simplifyDebt (sweep cur cs ds i j h))"
proof (induction cur cs ds i j g arbitrary: h rule: sweep_cases_induct)
  case (stop cur cs ds i j g)
  then show ?case by (simp add: sweep_done)
next
  case (step cur cs ds i j g cs' ds' i' j' g')
  obtain cs'' ds'' i'' j'' h' where b: "sweep_body cur cs ds i j h = (cs'', ds'', i'', j'', h')"
    by (metis prod_cases5)
  from sweep_body_same [OF step.hyps(3) b] step.prems
  have same: "cs'' = cs'" "ds'' = ds'" "i'' = i'" "j'' = j'"
    and rel: "map strip_id (simplifyDebt g') = map strip_id (simplifyDebt h')"
    by simp_all
  from step.IH [OF rel] sweep_step [OF step.hyps(1,2) step.hyps(3)]
    sweep_step [OF step.hyps(1,2) b [unfolded same]]
  show ?case by simp
qed

lemma settle_currency_same:
  assumes "members g = members h"
    and "map strip_id (simplifyDebt g) = map strip_id (simplifyDebt h)"
  shows "fst (settle_currency g cb) = fst (settle_currency h cb) \<and>
     members (snd (settle_currency g cb)) = members (snd (settle_currency h cb)) \<and>
     map strip_id (simplifyDebt (snd (settle_currency g cb))) =
     map strip_id (simplifyDebt (snd (settle_currency h cb)))"
  using assms sweep_same [OF assms(2)]
  by (auto simp: settle_currency_def split: option.splits)

lemma settle_all_same:
  "members g = members h \<Longrightarrow>
   map strip_id (simplifyDebt g) = map strip_id (simplifyDebt h) \<Longrightarrow>
   map strip_id (simplifyDebt (snd (settle_all dbc g))) =
   map strip_id (simplifyDebt (snd (settle_all dbc h)))"
proof (induction dbc arbitrary: g h)
  case Nil
  then show ?case by simp
next
  case (Cons cb dbc)
  obtain e g' where g': "settle_currency g cb = (e, g')" by (cases "settle_currency g cb")
  obtain e' h' where h': "settle_currency h cb = (e', h')" by (cases "settle_currency h cb")
  from settle_currency_same [OF Cons.prems, of cb] g' h'
  have r: "e = e'" "members g' = members h'"
    "map strip_id (simplifyDebt g') = map strip_id (simplifyDebt h')" by simp_all
  show ?case
  proof (cases e)
    case None
    with Cons.IH [OF r(2,3)] g' h' r(1) show ?thesis by simp
  next
    case (Some err)
    with g' h' r show ?thesis by auto
  qed
qed

lemma strip_id_eqD:
  assumes "strip_id x = strip_id y"
  shows "d_currency x = d_currency y" "debt_triple x = debt_triple y"
proof -
  have "d_currency (strip_id x) = d_currency (strip_id y)"
    "debt_triple (strip_id x) = debt_triple (strip_id y)"
    by (simp_all only: assms)
  then show "d_currency x = d_currency y" "debt_triple x = debt_triple y"
    by (simp_all add: strip_id_def debt_triple_def)
qed

lemma triples_of_stripped:
  "map strip_id xs = map strip_id ys \<Longrightarrow>
   map debt_triple (filter (\<lambda>d. d_currency d = c) xs) =
   map debt_triple (filter (\<lambda>d. d_currency d = c) ys)"
proof (induction xs arbitrary: ys)
  case Nil
  then show ?case by simp
next
  case (Cons x xs)
  then obtain y ys' where ys: "ys = y # ys'" "strip_id x = strip_id y"
    "map strip_id xs = map strip_id ys'"
    by (cases ys) auto
  from Cons.IH [OF ys(3)] strip_id_eqD [OF ys(2)] ys(1) show ?case by simp
qed

lemma calculateDebts_same:
  assumes "members g = members h" "billSplit g = billSplit h"
  shows "map strip_id (simplifyDebt (snd (calculateDebts g))) =
         map strip_id (simplifyDebt (snd (calculateDebts h)))"
proof -
  have "all_balances g = all_balances h"
    using assms by (rule all_balances_cong)
  moreover have "map strip_id (simplifyDebt (snd (settle_all (all_balances h) (g\<lparr>simplifyDebt := []\<rparr>)))) =
        map strip_id (simplifyDebt (snd (settle_all (all_balances h) (h\<lparr>simplifyDebt := []\<rparr>))))"
    using assms(1) by (intro settle_all_same) simp_all
  ultimately show ?thesis by (simp add: calculateDebts_unfold)
qed

lemma calculateGroupDebts_snd: "snd (calculateGroupDebts g) = save (snd (calculateDebts g))"
  using calculateDebts_no_error [of g]
  by (cases "calculateDebts g") (auto simp: calculateGroupDebts_def)

lemma calculateGroupDebts_fst: "fst (calculateGroupDebts g) = None"
  using calculateDebts_no_error [of g]
  by (cases "calculateDebts g") (auto simp: calculateGroupDebts_def)

text \<open>
  Claim C5. Running \<open>calculateDebts\<close> again on the group a run has just produced, with
  the ledger and the members as they are, yields for every currency the same multiset of
  (from, to, amount) triples; the debts differ only in the ids they were given. The same
  holds for two recalculation requests in a row (each a run followed by a save) on a group
  whose ledger is in the order every save leaves it in, newest first.
\<close>

theorem calculateDebts_idempotent:
  "mset (map debt_triple (debts_in (snd (calculateDebts (snd (calculateDebts g)))) c)) =
   mset (map debt_triple (debts_in (snd (calculateDebts g)) c)) \<and>
   (sorted (map (\<lambda>e. - e_date e) (billSplit g)) \<longrightarrow>
      fst (calculateGroupDebts g) = None \<and>
      fst (calculateGroupDebts (snd (calculateGroupDebts g))) = None \<and>
      mset (map debt_triple (debts_in (snd (calculateGroupDebts (snd (calculateGroupDebts g)))) c)) =
      mset (map debt_triple (debts_in (snd (calculateGroupDebts g)) c)))"
proof (intro conjI impI)
  have "map strip_id (simplifyDebt (snd (calculateDebts (snd (calculateDebts g))))) =
        map strip_id (simplifyDebt (snd (calculateDebts g)))"
    by (rule calculateDebts_same) simp_all
  from triples_of_stripped [OF this, of c]
  show "mset (map debt_triple (debts_in (snd (calculateDebts (snd (calculateDebts g)))) c)) =
        mset (map debt_triple (debts_in (snd (calculateDebts g)) c))"
    by (simp add: debts_in_def)
next
  show "fst (calculateGroupDebts g) = None"
    by (rule calculateGroupDebts_fst)
next
  show "fst (calculateGroupDebts (snd (calculateGroupDebts g))) = None"
    by (rule calculateGroupDebts_fst)
next
  assume "sorted (map (\<lambda>e. - e_date e) (billSplit g))"
  then have "billSplit (save (snd (calculateDebts g))) = billSplit g"
    by (simp add: billSplit_save sort_key_id_if_sorted)
  then have "map strip_id (simplifyDebt (snd (calculateDebts (save (snd (calculateDebts g)))))) =
        map strip_id (simplifyDebt (snd (calculateDebts g)))"
    by (intro calculateDebts_same) simp_all
  from triples_of_stripped [OF this, of c]
  show "mset (map debt_triple (debts_in (snd (calculateGroupDebts (snd (calculateGroupDebts g)))) c)) =
        mset (map debt_triple (debts_in (snd (calculateGroupDebts g)) c))"
    by (simp add: debts_in_def calculateGroupDebts_snd)
qed

text \<open>After the first scenario: two requests in a row give B to A 100 and C to A 100.\<close>

theorem calculateDebts_idempotent_witness:
  "map debt_triple (debts_in (snd (calculateGroupDebts after_dinner)) IDR) =
     [(\<lparr>p_userId = 2, p_username = ''B''\<rparr>, \<lparr>p_userId = 1, p_username = ''A''\<rparr>, 100),
      (\<lparr>p_userId = 3, p_username = ''C''\<rparr>, \<lparr>p_userId = 1, p_username = ''A''\<rparr>, 100)] \<and>
   mset (map debt_triple
           (debts_in (snd (calculateGroupDebts (snd (calculateGroupDebts after_dinner)))) IDR)) =
   mset (map debt_triple (debts_in (snd (calculateGroupDebts after_dinner)) IDR))"
proof -
  have s: "sorted (map (\<lambda>e. - e_date e) (billSplit after_dinner))" by code_simp
  have v: "map debt_triple (debts_in (snd (calculateGroupDebts after_dinner)) IDR) =
     [(\<lparr>p_userId = 2, p_username = ''B''\<rparr>, \<lparr>p_userId = 1, p_username = ''A''\<rparr>, 100),
      (\<lparr>p_userId = 3, p_username = ''C''\<rparr>, \<lparr>p_userId = 1, p_username = ''A''\<rparr>, 100)]"
    by code_simp
  from calculateDebts_idempotent [of after_dinner IDR] s v show ?thesis by blast
qed

subsection \<open>The sum of the balances\<close>


lemma num_total_update:
  "num_total (AList.update k v bal) =
   num_total bal + num_of v - (case map_of bal k of None \<Rightarrow> 0 | Some u \<Rightarrow> num_of u)"
  by (induction bal) (auto simp: num_total_def)


lemma all_num_lookup: "all_num bal \<Longrightarrow> map_of bal k \<noteq> Some NaN"
  by (auto simp: all_num_def dest!: map_of_SomeD intro: rev_image_eqI)

lemma init_balance_total [simp]: "num_total (init_balance bal m) = num_total bal"
  by (auto simp: init_balance_def num_total_update split: option.splits jsnum.splits)




lemma inits_total [simp]: "num_total (foldl init_balance bal ms) = num_total bal"
  by (induction ms arbitrary: bal) auto











section \<open>Balance invariant\<close>




section \<open>Members who have left\<close>

lemma calculateDebts_parties_active:
  assumes "d \<in> set (simplifyDebt (snd (calculateDebts g)))"
  shows "p_userId (d_from d) \<in> set (activeMemberIds g) \<and>
         p_userId (d_to d) \<in> set (activeMemberIds g)"
proof -
  from calculateDebts_appends [of g] assms obtain bal where bal:
    "(d_currency d, bal) \<in> set (all_balances g)"
    "p_userId (d_from d) \<in> set (map fst (debtor_balances bal))"
    "p_userId (d_to d) \<in> set (map fst (creditor_balances bal))"
    by blast
  from tables_ok_all_balances [of g] bal(1) have w: "nums_within (activeMemberIds g) bal"
    by (auto simp: tables_ok_def)
  from bal(2) obtain p where "p \<in> set (debtor_balances bal)" "fst p = p_userId (d_from d)"
    by auto
  with debtor_balances_num [of p bal] w have "p_userId (d_from d) \<in> set (activeMemberIds g)"
    by (auto simp: nums_within_def)
  moreover from bal(3) obtain q where "q \<in> set (creditor_balances bal)" "fst q = p_userId (d_to d)"
    by auto
  with creditor_balances_num [of q bal] w have "p_userId (d_to d) \<in> set (activeMemberIds g)"
    by (auto simp: nums_within_def)
  ultimately show ?thesis by simp
qed

text \<open>
  Claim C8 says that a member who has left, and who paid or took part in past expenses,
  can still be the from or the to party of a recomputed debt. The ledger is indeed read
  in full, but the run below shows what happens to such a member. A paid 300 for A, B
  and C; B and C settled their debts; A was then removed. Balances are initialised for
  active members only, so the credit to A is \<open>undefined + 300\<close>, which is \<open>NaN\<close>;
  A is neither creditor nor debtor, B and C find no creditor, and no debt is emitted at
  all. With A still active the same ledger gives the two debts of 100 from B to A and
  from C to A. By \<open>calculateDebts_parties_active\<close> both parties of every recomputed
  debt are active members, whatever the group.
\<close>

theorem removed_payer_has_no_debts:
  "fst (settleDebt after_dinner 0 2 20) = None \<and>
   fst (settleDebt (snd (settleDebt after_dinner 0 2 20)) 1 3 21) = None \<and>
   fst (removeMember both_settled 1) = None \<and>
   map (\<lambda>m. (m_userId m, m_isActive m)) (members a_left) = [(1, False), (2, True), (3, True)] \<and>
   map (\<lambda>e. (e_paidBy e, e_amount e, map (\<lambda>s. (s_userId s, s_amount s)) (e_splitBetween e)))
     (billSplit a_left) = [(1, 300, [(1, 100), (2, 100), (3, 100)])] \<and>
   all_balances a_left = [(IDR, [(2, Num (- 100)), (3, Num (- 100)), (1, NaN)])] \<and>
   simplifyDebt (snd (calculateDebts a_left)) = [] \<and>
   map (\<lambda>d. (p_userId (d_from d), p_userId (d_to d), d_amount d))
     (simplifyDebt (snd (calculateDebts (a_left\<lparr>members := members trio\<rparr>)))) =
     [(2, 1, 100), (3, 1, 100)]"
  by code_simp

end
